theory Spec2Isabelle
  imports Complex_Main "HOL-Library.AList"
begin

section \<open>Points and vectors\<close>

text \<open>
  \<^verbatim>\<open>GPoint\<close> and \<^verbatim>\<open>GVector\<close> are pairs of doubles. The model works over the reals:
  rounding is not modelled, and the places where IEEE arithmetic leaves the reals (a
  division by zero) are written out as branches of the definitions.
  The vector header \<^verbatim>\<open>GVector.h\<close> is not among the sources; its functions are taken
  from the specification (section 4.1).
\<close>

type_synonym GPoint = "real \<times> real"
type_synonym GVector = "real \<times> real"

text \<open>Modelled from the spec: \<^verbatim>\<open>operator-\<close> of GVector.h (point minus point), which is not among the sources.\<close>
definition psub :: "GPoint \<Rightarrow> GPoint \<Rightarrow> GVector" where
  "psub p q = (fst p - fst q, snd p - snd q)"

text \<open>Modelled from the spec: \<^verbatim>\<open>operator+\<close> of GVector.h (point plus vector), which is not among the sources.\<close>
definition padd :: "GPoint \<Rightarrow> GVector \<Rightarrow> GPoint" where
  "padd p v = (fst p + fst v, snd p + snd v)"

text \<open>Modelled from the spec: \<^verbatim>\<open>operator*\<close> of GVector.h (vector times scalar), which is not among the sources.\<close>
definition vscale :: "GVector \<Rightarrow> real \<Rightarrow> GVector" where
  "vscale v k = (fst v * k, snd v * k)"

text \<open>Modelled from the spec: \<^verbatim>\<open>dot\<close> of GVector.h, which is not among the sources.\<close>
definition dot :: "GVector \<Rightarrow> GVector \<Rightarrow> real" where
  "dot u v = fst u * fst v + snd u * snd v"

text \<open>Modelled from the spec: \<^verbatim>\<open>magnitudeOf\<close> of GVector.h, which is not among the sources.\<close>
definition magnitudeOf :: "GVector \<Rightarrow> real" where
  "magnitudeOf v = sqrt (dot v v)"

text \<open>
  Modelled from the spec: \<^verbatim>\<open>normalizationOf\<close> of GVector.h, which is not among the sources. For the zero
  vector the specification (sections 4.1 and 7) asks for a fixed unit vector, "e.g. angle 0".
\<close>
definition normalizationOf :: "GVector \<Rightarrow> GVector" where
  "normalizationOf v =
     (if magnitudeOf v = 0 then (1, 0)
      else (fst v / magnitudeOf v, snd v / magnitudeOf v))"

text \<open>
  Modelled from the spec: \<^verbatim>\<open>rotate\<close> of GVector.h, which is not among the sources: the standard
  counter-clockwise rotation by \<open>theta\<close> radians.
\<close>
definition rotate_v :: "GVector \<Rightarrow> real \<Rightarrow> GVector" where
  "rotate_v v theta =
     (fst v * cos theta - snd v * sin theta, fst v * sin theta + snd v * cos theta)"

text \<open>Modelled from the spec: \<^verbatim>\<open>unitToward\<close> of GVector.h, which is not among the sources.\<close>
definition unitToward :: "real \<Rightarrow> GVector" where
  "unitToward theta = (cos theta, sin theta)"

section \<open>Constants\<close>

definition kNodeRadius :: real where
  "kNodeRadius = 35 / 1000"

definition kAspectRatio :: real where
  "kAspectRatio = 5 / 3"

definition kLoopTransitionRadius :: real where
  "kLoopTransitionRadius = kNodeRadius * (75 / 100)"

definition kAvoidanceRotation :: real where
  "kAvoidanceRotation = - pi / 6"

definition kLowAngle :: int where
  "kLowAngle = - 5"

definition kHighAngle :: int where
  "kHighAngle = 355"

definition kAngleStep :: int where
  "kAngleStep = 10"

section \<open>Collision counting\<close>

text \<open>
  \<^verbatim>\<open>quadraticSolnsInRange\<close>. The source divides by \<open>2 * a\<close> without a test. For
  \<open>a = 0\<close> the discriminant is \<open>b * b\<close>, never negative, and of the two quotients
  \<open>(-b + |b|) / 0\<close> and \<open>(-b - |b|) / 0\<close> at least one is \<open>0 / 0\<close>, a NaN; every
  comparison with a NaN is false, so neither conjunction holds and the function returns 1.
\<close>
definition quadraticSolnsInRange :: "real \<Rightarrow> real \<Rightarrow> real \<Rightarrow> nat" where
  "quadraticSolnsInRange a b c =
     (let discriminant = b * b - 4 * a * c in
      if discriminant < 0 then 0
      else if a = 0 then 1
      else
        let x1 = (- b + sqrt discriminant) / (2 * a);
            x2 = (- b - sqrt discriminant) / (2 * a)
        in if (x1 < 0 \<and> x2 < 0) \<or> (x1 > 1 \<and> x2 > 1) then 0 else 1)"

text \<open>The circle/lines overload of \<^verbatim>\<open>collisionsBetween\<close>: one pass over the lines,
  adding to \<open>solns\<close>.\<close>
definition collisionsBetween_lines ::
  "GPoint \<Rightarrow> real \<Rightarrow> (GPoint \<times> GPoint) list \<Rightarrow> nat" where
  "collisionsBetween_lines center radius lines =
     fold (\<lambda>line solns.
             let d = psub (snd line) (fst line);
                 s = psub (fst line) center
             in solns + quadraticSolnsInRange (dot d d) (2 * dot d s)
                          (dot s s - radius * radius))
          lines 0"

text \<open>The circle/circles overload of \<^verbatim>\<open>collisionsBetween\<close>: its body is \<^verbatim>\<open>return 0\<close>.\<close>
definition collisionsBetween_circles ::
  "GPoint \<Rightarrow> real \<Rightarrow> (GPoint \<times> real) list \<Rightarrow> nat" where
  "collisionsBetween_circles center radius circles = 0"

definition collisionsBetween ::
  "GPoint \<Rightarrow> real \<Rightarrow> (GPoint \<times> GPoint) list \<Rightarrow> (GPoint \<times> real) list \<Rightarrow> nat" where
  "collisionsBetween center radius lines circles =
     collisionsBetween_lines center radius lines
       + collisionsBetween_circles center radius circles"

section \<open>The best angle of a self-loop\<close>

text \<open>The candidate angles: \<^verbatim>\<open>for (degAngle = kLowAngle; degAngle < kHighAngle; degAngle += kAngleStep)\<close>.\<close>
function candidateAngles :: "int \<Rightarrow> int list" where
  "candidateAngles degAngle =
     (if degAngle < kHighAngle then degAngle # candidateAngles (degAngle + kAngleStep)
      else [])"
  by pat_completeness auto
termination
  by (relation "measure (\<lambda>degAngle. nat (kHighAngle - degAngle))")
     (auto simp: kAngleStep_def)

declare candidateAngles.simps [simp del]

text \<open>The height map of collisions, one entry per candidate angle.\<close>
definition collisionMap ::
  "GPoint \<Rightarrow> (GPoint \<times> GPoint) list \<Rightarrow> (GPoint \<times> real) list \<Rightarrow> nat list" where
  "collisionMap stateCenter lines circles =
     map (\<lambda>degAngle.
            let theta = real_of_int degAngle * pi / 180;
                center = padd stateCenter (vscale (unitToward theta) kNodeRadius)
            in collisionsBetween center kLoopTransitionRadius lines circles)
         (candidateAngles kLowAngle)"

text \<open>\<^verbatim>\<open>*min_element(collisions.begin(), collisions.end())\<close>; the vector is never empty.\<close>
fun min_element :: "nat list \<Rightarrow> nat" where
  "min_element [] = 0"
| "min_element [c] = c"
| "min_element (c # cs) = min c (min_element cs)"

text \<open>
  The backward scan for the wraparound: \<open>i\<close> counts down from the size, and the scan
  stops at the first entry that is not the minimum. The pair is
  \<open>(currStart, currLength)\<close>.
\<close>
fun scanBackward :: "nat list \<Rightarrow> nat \<Rightarrow> nat \<Rightarrow> nat \<times> nat \<Rightarrow> nat \<times> nat" where
  "scanBackward collisions mn 0 run = run"
| "scanBackward collisions mn (Suc i) (currStart, currLength) =
     (if collisions ! i \<noteq> mn then (currStart, currLength)
      else scanBackward collisions mn i
             ((currStart + length collisions - 1) mod length collisions, currLength + 1))"

text \<open>
  One round of the forward loop on index \<open>i\<close>. The state is
  \<open>(bestStart, bestLength, currStart, currLength)\<close>.
\<close>
definition scanStep ::
  "nat list \<Rightarrow> nat \<Rightarrow> nat \<Rightarrow> nat \<times> nat \<times> nat \<times> nat \<Rightarrow> nat \<times> nat \<times> nat \<times> nat" where
  "scanStep collisions mn i st =
     (case st of (bestStart, bestLength, currStart, currLength) \<Rightarrow>
        if collisions ! i \<noteq> mn then
          (if bestLength < currLength then (currStart, currLength, i + 1, 0)
           else (bestStart, bestLength, i + 1, 0))
        else (bestStart, bestLength, currStart, currLength + 1))"

text \<open>
  The whole search for the longest run of minima: the backward scan, the forward loop
  over \<open>0 \<le> i < size\<close>, and the final test for a run that reaches the end. The result
  is \<open>(bestStart, bestLength)\<close>.
\<close>
definition longestMinRun :: "nat list \<Rightarrow> nat \<times> nat" where
  "longestMinRun collisions =
     (let mn = min_element collisions;
          back = scanBackward collisions mn (length collisions) (0, 0);
          st = fold (scanStep collisions mn) [0 ..< length collisions]
                 (0, 0, fst back, snd back)
      in case st of (bestStart, bestLength, currStart, currLength) \<Rightarrow>
           if bestLength < currLength then (currStart, currLength)
           else (bestStart, bestLength))"

text \<open>
  The two angles and their mean. \<open>bestStart + bestLength - 1\<close> is computed on
  \<^verbatim>\<open>size_t\<close> (64 bits, wrapping) before the conversion to double.
\<close>
definition thetaOfRun :: "nat \<times> nat \<Rightarrow> real" where
  "thetaOfRun run =
     (let bestStart = fst run; bestLength = snd run;
          lowTheta = (real_of_int kLowAngle
                        + real ((bestStart * nat kAngleStep) mod 2 ^ 64)) * pi / 180;
          highTheta = (real_of_int kLowAngle
                        + real ((bestStart + bestLength + (2 ^ 64 - 1)) mod 2 ^ 64)
                            * real_of_int kAngleStep) * pi / 180
      in (lowTheta + highTheta) / 2)"

definition bestThetaFor ::
  "GPoint \<Rightarrow> (GPoint \<times> GPoint) list \<Rightarrow> (GPoint \<times> real) list \<Rightarrow> real" where
  "bestThetaFor stateCenter lines circles =
     thetaOfRun (longestMinRun (collisionMap stateCenter lines circles))"

text \<open>\<^verbatim>\<open>loopArrowPointFor\<close>.\<close>
definition loopArrowPointFor :: "GPoint \<Rightarrow> GPoint \<Rightarrow> GPoint" where
  "loopArrowPointFor stateCenter loopCenter =
     (let theta = arccos (1 - kLoopTransitionRadius * kLoopTransitionRadius
                               / (2 * kNodeRadius * kNodeRadius))
      in padd stateCenter (rotate_v (psub loopCenter stateCenter) theta))"

text \<open>\<^verbatim>\<open>worldBoundaries\<close>.\<close>
definition worldBoundaries :: "(GPoint \<times> GPoint) list" where
  "worldBoundaries =
     (let lft = 0; rgt = 1; top = 0; bot = 1 / kAspectRatio in
      [((lft, top), (rgt, top)),
       ((lft, bot), (rgt, bot)),
       ((lft, top), (lft, bot)),
       ((rgt, top), (rgt, bot))])"

section \<open>The registry\<close>

text \<open>
  A \<^verbatim>\<open>Node*\<close> is the address of a node object. The viewer owns its nodes
  (\<^verbatim>\<open>std::set<std::shared_ptr<Node>>\<close>, ordered by address), so \<open>nodes\<close> pairs each
  address with the object stored there; the set holds the only \<^verbatim>\<open>shared_ptr\<close> to a
  node (\<^verbatim>\<open>newNode\<close> hands out the raw pointer), so that the erase from the set destroys
  the object. The viewer has no auxiliary data (\<^verbatim>\<open>mAux\<close> is null, the constructor's
  default).
\<close>

type_synonym node_ref = nat

record Node =
  mPos :: GPoint
  mIndex :: nat
  mLabel :: string

datatype EdgeRender = LineEdge GPoint GPoint | LoopEdge GPoint GPoint

text \<open>\<open>mEdgeLabel\<close> is \<^verbatim>\<open>Edge::mLabel\<close>; \<open>style\<close> is null until the first recomputation.\<close>
record Edge =
  mFrom :: node_ref
  mTo :: node_ref
  mEdgeLabel :: string
  style :: "EdgeRender option"

text \<open>
  \<open>edges\<close> is the map of maps \<^verbatim>\<open>node -> node -> edge\<close>, as association lists: the
  iteration order of an \<^verbatim>\<open>unordered_map\<close> is not fixed by the language, and the lists
  fix one. \<open>freeNodeIDs\<close> is a \<^verbatim>\<open>std::set<int>\<close>: ascending, without duplicates.
\<close>
record Viewer =
  nodes :: "(node_ref \<times> Node) list"
  edges :: "(node_ref \<times> (node_ref \<times> Edge) list) list"
  freeNodeIDs :: "int list"

text \<open>
  The state of the model is one viewer together with the node objects that are alive
  outside it: \<open>others\<close> pairs the address of every node that another viewer owns with the
  object stored there. None of the operations tests whether a \<^verbatim>\<open>Node*\<close> it receives
  belongs to its own viewer, and a node of another viewer is read like one of its own.
\<close>
record Store = Viewer +
  others :: "(node_ref \<times> Node) list"

text \<open>
  A \<^verbatim>\<open>Node*\<close> that is neither in \<open>nodes\<close> nor in \<open>others\<close> points at no object: at a
  destroyed node, or at no node at all. Reading through it is undefined behaviour, for
  which the value \<open>Inl (DanglingNode r)\<close> stands; \<open>Inl (DanglingEdge from to)\<close> is the same
  for an \<^verbatim>\<open>Edge*\<close>.
\<close>
datatype fault = DanglingNode node_ref | DanglingEdge node_ref node_ref

text \<open>A new viewer, with no other viewer beside it.\<close>
definition emptyViewer :: Store where
  "emptyViewer = \<lparr>nodes = [], edges = [], freeNodeIDs = [], others = []\<rparr>"

text \<open>\<^verbatim>\<open>std::set::insert\<close>: the position is found by the key, and an element whose key is
  already there is not inserted.\<close>
fun set_insert :: "('a \<Rightarrow> 'k::linorder) \<Rightarrow> 'a \<Rightarrow> 'a list \<Rightarrow> 'a list" where
  "set_insert key x [] = [x]"
| "set_insert key x (y # ys) =
     (if key x < key y then x # y # ys
      else if key x = key y then y # ys
      else y # set_insert key x ys)"

text \<open>The conversions between \<^verbatim>\<open>size_t\<close> (64 bits) and \<^verbatim>\<open>int\<close> (32 bits) around
  \<open>freeNodeIDs\<close>.\<close>
definition int_of_size_t :: "nat \<Rightarrow> int" where
  "int_of_size_t n = (int n + 2 ^ 31) mod 2 ^ 32 - 2 ^ 31"

definition size_t_of_int :: "int \<Rightarrow> nat" where
  "size_t_of_int i = nat (i mod 2 ^ 64)"

definition numNodes :: "Store \<Rightarrow> nat" where
  "numNodes v = length (nodes v)"

text \<open>The object that a \<^verbatim>\<open>Node*\<close> points at.\<close>
definition deref :: "Store \<Rightarrow> node_ref \<Rightarrow> fault + Node" where
  "deref v node =
     (case map_of (nodes v) node of
        Some n \<Rightarrow> Inr n
      | None \<Rightarrow>
          (case map_of (others v) node of
             Some n \<Rightarrow> Inr n
           | None \<Rightarrow> Inl (DanglingNode node)))"

text \<open>\<^verbatim>\<open>node->position()\<close> and \<^verbatim>\<open>node->index()\<close>.\<close>
definition positionOf :: "Store \<Rightarrow> node_ref \<Rightarrow> fault + GPoint" where
  "positionOf v node = (case deref v node of Inl f \<Rightarrow> Inl f | Inr n \<Rightarrow> Inr (mPos n))"

definition indexOf :: "Store \<Rightarrow> node_ref \<Rightarrow> fault + nat" where
  "indexOf v node = (case deref v node of Inl f \<Rightarrow> Inl f | Inr n \<Rightarrow> Inr (mIndex n))"

definition hasEdge :: "Store \<Rightarrow> node_ref \<Rightarrow> node_ref \<Rightarrow> bool" where
  "hasEdge v from to =
     (case map_of (edges v) from of
        None \<Rightarrow> False
      | Some inner \<Rightarrow> map_of inner to \<noteq> None)"

definition edgeBetween :: "Store \<Rightarrow> node_ref \<Rightarrow> node_ref \<Rightarrow> Edge option" where
  "edgeBetween v from to =
     (case map_of (edges v) from of
        None \<Rightarrow> None
      | Some inner \<Rightarrow> map_of inner to)"

text \<open>\<^verbatim>\<open>edges[from]\<close>: the inner map, an empty one when the key is new.\<close>
definition innerOf :: "Store \<Rightarrow> node_ref \<Rightarrow> (node_ref \<times> Edge) list" where
  "innerOf v from = (case map_of (edges v) from of None \<Rightarrow> [] | Some inner \<Rightarrow> inner)"

subsection \<open>Route recomputation\<close>

text \<open>
  \<^verbatim>\<open>forEachEdge\<close>: the callback receives each edge object and may write to it and to
  the variables it captured by reference, here the accumulator.
\<close>
primrec forEachInner ::
  "(Edge \<Rightarrow> 'a \<Rightarrow> fault + Edge \<times> 'a) \<Rightarrow> (node_ref \<times> Edge) list \<Rightarrow> 'a
     \<Rightarrow> fault + (node_ref \<times> Edge) list \<times> 'a" where
  "forEachInner callback [] acc = Inr ([], acc)"
| "forEachInner callback (e2 # rest) acc =
     (case callback (snd e2) acc of
        Inl f \<Rightarrow> Inl f
      | Inr (e', acc') \<Rightarrow>
          (case forEachInner callback rest acc' of
             Inl f \<Rightarrow> Inl f
           | Inr (rest', acc'') \<Rightarrow> Inr ((fst e2, e') # rest', acc'')))"

primrec forEachEdge ::
  "(Edge \<Rightarrow> 'a \<Rightarrow> fault + Edge \<times> 'a) \<Rightarrow> (node_ref \<times> (node_ref \<times> Edge) list) list \<Rightarrow> 'a
     \<Rightarrow> fault + (node_ref \<times> (node_ref \<times> Edge) list) list \<times> 'a" where
  "forEachEdge callback [] acc = Inr ([], acc)"
| "forEachEdge callback (e1 # rest) acc =
     (case forEachInner callback (snd e1) acc of
        Inl f \<Rightarrow> Inl f
      | Inr (inner', acc') \<Rightarrow>
          (case forEachEdge callback rest acc' of
             Inl f \<Rightarrow> Inl f
           | Inr (rest', acc'') \<Rightarrow> Inr ((fst e1, inner') # rest', acc'')))"

text \<open>
  The two border points of a straight edge between the centres \<open>p0\<close> and \<open>p1\<close>. In the
  second branch the source moves \<open>p0\<close> first, and the direction for \<open>p1\<close> is taken from
  the moved \<open>p0\<close>.
\<close>
definition lineEndpoints :: "bool \<Rightarrow> GPoint \<Rightarrow> GPoint \<Rightarrow> GPoint \<times> GPoint" where
  "lineEndpoints reverseExists p0 p1 =
     (if reverseExists then
        let p0Delta = rotate_v (normalizationOf (psub p1 p0)) kAvoidanceRotation;
            p1Delta = rotate_v (normalizationOf (psub p0 p1)) (- kAvoidanceRotation)
        in (padd p0 (vscale p0Delta kNodeRadius), padd p1 (vscale p1Delta kNodeRadius))
      else
        let p0' = padd p0 (vscale (normalizationOf (psub p1 p0)) kNodeRadius);
            p1' = padd p1 (vscale (normalizationOf (psub p0' p1)) kNodeRadius)
        in (p0', p1'))"

text \<open>The first callback of \<^verbatim>\<open>calculateEdgeEndpoints\<close>: linear transitions.\<close>
definition placeLine ::
  "Store \<Rightarrow> Edge \<Rightarrow> (GPoint \<times> GPoint) list \<Rightarrow> fault + Edge \<times> (GPoint \<times> GPoint) list" where
  "placeLine v transition lines =
     (if mFrom transition \<noteq> mTo transition then
        (case positionOf v (mFrom transition) of
           Inl f \<Rightarrow> Inl f
         | Inr p0 \<Rightarrow>
             (case positionOf v (mTo transition) of
                Inl f \<Rightarrow> Inl f
              | Inr p1 \<Rightarrow>
                  let ends = lineEndpoints (hasEdge v (mTo transition) (mFrom transition)) p0 p1
                  in Inr (transition\<lparr>style := Some (LineEdge (fst ends) (snd ends))\<rparr>,
                          lines @ [ends])))
      else Inr (transition, lines))"

text \<open>The centre and the arrow point of a self-loop on a node at \<open>pos\<close>.\<close>
definition loopGeometry ::
  "GPoint \<Rightarrow> (GPoint \<times> GPoint) list \<Rightarrow> (GPoint \<times> real) list \<Rightarrow> GPoint \<times> GPoint" where
  "loopGeometry pos lines circles =
     (let theta = bestThetaFor pos lines circles;
          center = padd pos (vscale (unitToward theta) kNodeRadius);
          arrowPt = loopArrowPointFor pos center
      in (center, arrowPt))"

text \<open>The second callback of \<^verbatim>\<open>calculateEdgeEndpoints\<close>: self-loops.\<close>
definition placeLoop ::
  "Store \<Rightarrow> (GPoint \<times> GPoint) list \<Rightarrow> Edge \<Rightarrow> (GPoint \<times> real) list
     \<Rightarrow> fault + Edge \<times> (GPoint \<times> real) list" where
  "placeLoop v lines transition circles =
     (if mFrom transition = mTo transition then
        (case positionOf v (mFrom transition) of
           Inl f \<Rightarrow> Inl f
         | Inr pos \<Rightarrow>
             let g = loopGeometry pos lines circles
             in Inr (transition\<lparr>style := Some (LoopEdge (fst g) (snd g))\<rparr>,
                     circles @ [(fst g, kNodeRadius)]))
      else Inr (transition, circles))"

definition calculateEdgeEndpoints :: "Store \<Rightarrow> fault + Store" where
  "calculateEdgeEndpoints v =
     (case forEachEdge (placeLine v) (edges v) worldBoundaries of
        Inl f \<Rightarrow> Inl f
      | Inr (edges1, lines) \<Rightarrow>
          let circles = map (\<lambda>state. (mPos (snd state), kNodeRadius)) (nodes v)
          in (case forEachEdge (placeLoop v lines) edges1 circles of
                Inl f \<Rightarrow> Inl f
              | Inr (edges2, circles') \<Rightarrow> Inr (v\<lparr>edges := edges2\<rparr>)))"

subsection \<open>Nodes\<close>

text \<open>
  \<^verbatim>\<open>newNodeNoAux\<close>. \<open>addr\<close> is the address that \<^verbatim>\<open>new Node\<close> returns. The
  constructor stores \<open>pt\<close> in \<open>mPos\<close> as it is and recomputes the routes; then the node
  enters the set.
\<close>
definition newNodeNoAux ::
  "node_ref \<Rightarrow> GPoint \<Rightarrow> nat \<Rightarrow> string \<Rightarrow> Store \<Rightarrow> fault + node_ref \<times> Store" where
  "newNodeNoAux addr pt index label v =
     (case calculateEdgeEndpoints v of
        Inl f \<Rightarrow> Inl f
      | Inr v1 \<Rightarrow>
          Inr (addr,
               v1\<lparr>nodes := set_insert fst
                              (addr, \<lparr>mPos = pt, mIndex = index, mLabel = label\<rparr>)
                              (nodes v1)\<rparr>))"

definition newNode :: "node_ref \<Rightarrow> GPoint \<Rightarrow> Store \<Rightarrow> fault + node_ref \<times> Store" where
  "newNode addr pt v =
     (let id = numNodes v in
      if freeNodeIDs v \<noteq> [] then
        newNodeNoAux addr pt (size_t_of_int (hd (freeNodeIDs v))) ''''
          (v\<lparr>freeNodeIDs := tl (freeNodeIDs v)\<rparr>)
      else newNodeNoAux addr pt id '''' v)"

text \<open>
  \<^verbatim>\<open>removeNode\<close>. \<^verbatim>\<open>find_if\<close> compares the pointers and reads through none of them.
  \<^verbatim>\<open>nodes.erase(itr)\<close> removes the element of the set and with it the node object; the
  two erasures on \<open>edges\<close> use the pointer as a key only. Then the source reads
  \<^verbatim>\<open>node->index()\<close> through the pointer it was given, in the state the erasures left.
\<close>
definition removeNode :: "node_ref \<Rightarrow> Store \<Rightarrow> fault + Store" where
  "removeNode node v =
     (case map_of (nodes v) node of
        None \<Rightarrow> Inr v
      | Some n \<Rightarrow>
          let v1 = v\<lparr>nodes := AList.delete node (nodes v)\<rparr>;
              v2 = v1\<lparr>edges := AList.delete node (edges v1)\<rparr>;
              v3 = v2\<lparr>edges := map (\<lambda>e1. (fst e1, AList.delete node (snd e1))) (edges v2)\<rparr>
          in (case indexOf v3 node of
                Inl f \<Rightarrow> Inl f
              | Inr index \<Rightarrow>
                  calculateEdgeEndpoints
                    (v3\<lparr>freeNodeIDs :=
                          set_insert id (int_of_size_t index) (freeNodeIDs v3)\<rparr>)))"

text \<open>\<^verbatim>\<open>Node::label(const string&)\<close>, on the node object at \<open>node\<close>.\<close>
definition Node_label :: "node_ref \<Rightarrow> string \<Rightarrow> Store \<Rightarrow> fault + Store" where
  "Node_label node label v =
     (case map_of (nodes v) node of
        Some n \<Rightarrow> Inr (v\<lparr>nodes := AList.update node (n\<lparr>mLabel := label\<rparr>) (nodes v)\<rparr>)
      | None \<Rightarrow>
          (case map_of (others v) node of
             Some n \<Rightarrow> Inr (v\<lparr>others := AList.update node (n\<lparr>mLabel := label\<rparr>) (others v)\<rparr>)
           | None \<Rightarrow> Inl (DanglingNode node)))"

text \<open>The clamping of \<^verbatim>\<open>Node::position(const GPoint&)\<close>.\<close>
definition clampToWorld :: "GPoint \<Rightarrow> GPoint" where
  "clampToWorld pt =
     (let x = fst pt;
          x = (if x < kNodeRadius then kNodeRadius else x);
          x = (if x > 1 - kNodeRadius then 1 - kNodeRadius else x);
          y = snd pt;
          y = (if y < kNodeRadius then kNodeRadius else y);
          y = (if y > 1 / kAspectRatio - kNodeRadius then 1 / kAspectRatio - kNodeRadius
               else y)
      in (x, y))"

text \<open>
  \<^verbatim>\<open>Node::position(const GPoint&)\<close>, on the node object at \<open>node\<close>. The call
  \<^verbatim>\<open>owner->calculateEdgeEndpoints()\<close> goes to the viewer that owns the node: for a node
  in \<open>nodes\<close> that is this viewer; for a node in \<open>others\<close> it is another viewer, whose
  edges are not part of the state, and the routes of this viewer are not recomputed.
\<close>
definition Node_position :: "node_ref \<Rightarrow> GPoint \<Rightarrow> Store \<Rightarrow> fault + Store" where
  "Node_position node pt v =
     (case map_of (nodes v) node of
        Some n \<Rightarrow>
          calculateEdgeEndpoints
            (v\<lparr>nodes := AList.update node (n\<lparr>mPos := clampToWorld pt\<rparr>) (nodes v)\<rparr>)
      | None \<Rightarrow>
          (case map_of (others v) node of
             Some n \<Rightarrow>
               Inr (v\<lparr>others := AList.update node (n\<lparr>mPos := clampToWorld pt\<rparr>) (others v)\<rparr>)
           | None \<Rightarrow> Inl (DanglingNode node)))"

subsection \<open>Edges\<close>

text \<open>
  \<^verbatim>\<open>newEdgeNoAux\<close>: the constructor recomputes the routes, the new object is stored
  under \<^verbatim>\<open>edges[from][to]\<close>, and the routes are recomputed again. The pointer the
  source returns designates the entry at \<open>(from, to)\<close>.
\<close>
definition newEdgeNoAux :: "node_ref \<Rightarrow> node_ref \<Rightarrow> string \<Rightarrow> Store \<Rightarrow> fault + Store" where
  "newEdgeNoAux from to label v =
     (case calculateEdgeEndpoints v of
        Inl f \<Rightarrow> Inl f
      | Inr v1 \<Rightarrow>
          let edge = \<lparr>mFrom = from, mTo = to, mEdgeLabel = label, style = None\<rparr>
          in calculateEdgeEndpoints
               (v1\<lparr>edges := AList.update from (AList.update to edge (innerOf v1 from))
                                (edges v1)\<rparr>))"

definition newEdge :: "node_ref \<Rightarrow> node_ref \<Rightarrow> string \<Rightarrow> Store \<Rightarrow> fault + Store" where
  "newEdge from to label v = newEdgeNoAux from to label v"

text \<open>\<^verbatim>\<open>removeEdge\<close>: the argument is the edge object the pointer designates, of which
  the source reads \<^verbatim>\<open>from()\<close> and \<^verbatim>\<open>to()\<close>.\<close>
definition removeEdge :: "Edge \<Rightarrow> Store \<Rightarrow> fault + Store" where
  "removeEdge transition v =
     calculateEdgeEndpoints
       (v\<lparr>edges := AList.update (mFrom transition)
                      (AList.delete (mTo transition) (innerOf v (mFrom transition)))
                      (edges v)\<rparr>)"

text \<open>\<^verbatim>\<open>Edge::label(const string&)\<close>, on the edge object stored at \<open>(from, to)\<close>.\<close>
definition Edge_label :: "node_ref \<Rightarrow> node_ref \<Rightarrow> string \<Rightarrow> Store \<Rightarrow> fault + Store" where
  "Edge_label from to label v =
     (case edgeBetween v from to of
        None \<Rightarrow> Inl (DanglingEdge from to)
      | Some e \<Rightarrow>
          Inr (v\<lparr>edges := AList.update from
                            (AList.update to (e\<lparr>mEdgeLabel := label\<rparr>) (innerOf v from))
                            (edges v)\<rparr>))"

section \<open>Predicates and auxiliary functions of the proofs\<close>

text \<open>A node address is registered when the viewer's set holds a node at it.\<close>
definition registered :: "Store \<Rightarrow> node_ref \<Rightarrow> bool" where
  "registered v node = (map_of (nodes v) node \<noteq> None)"

text \<open>A node address is alive when a node object is stored at it, in this viewer or in
  another one.\<close>
definition alive :: "Store \<Rightarrow> node_ref \<Rightarrow> bool" where
  "alive v node = (registered v node \<or> map_of (others v) node \<noteq> None)"

text \<open>The endpoints of every edge object can be read.\<close>
definition edgesReadable :: "Store \<Rightarrow> bool" where
  "edgesReadable v =
     (\<forall>e1 \<in> set (edges v). \<forall>e2 \<in> set (snd e1).
        alive v (mFrom (snd e2)) \<and> alive v (mTo (snd e2)))"

text \<open>Every edge of the registry runs between registered nodes, and is stored under the
  pair of its own endpoints.\<close>
definition edgesLive :: "Store \<Rightarrow> bool" where
  "edgesLive v =
     (\<forall>e1 \<in> set (edges v). \<forall>e2 \<in> set (snd e1).
        registered v (fst e1) \<and> registered v (fst e2)
      \<and> mFrom (snd e2) = fst e1 \<and> mTo (snd e2) = fst e2)"

text \<open>The lists stand for the two ordered sets and for the maps: \<open>nodes\<close> ascends by
  address, \<open>freeNodeIDs\<close> ascends, and no key of a map occurs twice.\<close>
definition containersValid :: "Store \<Rightarrow> bool" where
  "containersValid v =
     (sorted_wrt (<) (map fst (nodes v)) \<and> sorted_wrt (<) (freeNodeIDs v)
      \<and> distinct (map fst (edges v))
      \<and> (\<forall>e1 \<in> set (edges v). distinct (map fst (snd e1))))"

definition wellFormed :: "Store \<Rightarrow> bool" where
  "wellFormed v = (containersValid v \<and> edgesLive v)"

text \<open>The same function applied to every edge object of the map of maps.\<close>
definition mapEdges ::
  "(Edge \<Rightarrow> Edge) \<Rightarrow> (node_ref \<times> (node_ref \<times> Edge) list) list
     \<Rightarrow> (node_ref \<times> (node_ref \<times> Edge) list) list" where
  "mapEdges g es = map (\<lambda>(from, inner). (from, map (\<lambda>(to, e). (to, g e)) inner)) es"

text \<open>The edge object as each callback leaves it.\<close>
definition lineRoute :: "Store \<Rightarrow> Edge \<Rightarrow> Edge" where
  "lineRoute v e = (case placeLine v e [] of Inl f \<Rightarrow> e | Inr r \<Rightarrow> fst r)"

definition loopRoute :: "Store \<Rightarrow> (GPoint \<times> GPoint) list \<Rightarrow> Edge \<Rightarrow> Edge" where
  "loopRoute v lines e = (case placeLoop v lines e [] of Inl f \<Rightarrow> e | Inr r \<Rightarrow> fst r)"

definition routed :: "Store \<Rightarrow> (GPoint \<times> GPoint) list \<Rightarrow> Edge \<Rightarrow> Edge" where
  "routed v lines e = loopRoute v lines (lineRoute v e)"

text \<open>The invariant of the forward loop of the run search, after \<open>i\<close> rounds.\<close>
definition runInv :: "nat list \<Rightarrow> nat \<Rightarrow> nat \<Rightarrow> nat \<times> nat \<times> nat \<times> nat \<Rightarrow> bool" where
  "runInv cs mn i st =
     (case st of (bestStart, bestLength, currStart, currLength) \<Rightarrow>
        bestStart \<le> length cs \<and> currStart \<le> length cs
      \<and> bestLength \<le> length cs + i \<and> currLength \<le> length cs + i
      \<and> ((\<exists>j<i. cs ! j = mn) \<longrightarrow> 1 \<le> max bestLength currLength))"

text \<open>The midpoint of a segment.\<close>
definition midpoint_of :: "GPoint \<times> GPoint \<Rightarrow> GPoint" where
  "midpoint_of seg = ((fst (fst seg) + fst (snd seg)) / 2, (snd (fst seg) + snd (snd seg)) / 2)"

text \<open>The world bounds of a node centre (section 4.2 of the specification).\<close>
definition inWorldBounds :: "GPoint \<Rightarrow> bool" where
  "inWorldBounds p =
     (kNodeRadius \<le> fst p \<and> fst p \<le> 1 - kNodeRadius
      \<and> kNodeRadius \<le> snd p \<and> snd p \<le> 1 / kAspectRatio - kNodeRadius)"

text \<open>Two edge objects with the same endpoints and the same label; the routes may differ.\<close>
definition sameEdge :: "Edge \<Rightarrow> Edge \<Rightarrow> bool" where
  "sameEdge e e' = (mFrom e' = mFrom e \<and> mTo e' = mTo e \<and> mEdgeLabel e' = mEdgeLabel e)"

text \<open>
  A registry with three nodes, the anti-parallel pair between the nodes at 10 and 20, an
  edge from 20 to 30 and a self-loop on 30, at which the theorems below are instantiated.
\<close>
definition sampleViewer :: Store where
  "sampleViewer =
     \<lparr>nodes = [(10, \<lparr>mPos = (1 / 4, 1 / 4), mIndex = 0, mLabel = ''p''\<rparr>),
               (20, \<lparr>mPos = (3 / 4, 1 / 4), mIndex = 1, mLabel = ''q''\<rparr>),
               (30, \<lparr>mPos = (1 / 2, 1 / 2), mIndex = 2, mLabel = ''r''\<rparr>)],
      edges = [(10, [(20, \<lparr>mFrom = 10, mTo = 20, mEdgeLabel = ''a'', style = None\<rparr>)]),
               (20, [(10, \<lparr>mFrom = 20, mTo = 10, mEdgeLabel = ''b'', style = None\<rparr>),
                     (30, \<lparr>mFrom = 20, mTo = 30, mEdgeLabel = ''c'', style = None\<rparr>)]),
               (30, [(30, \<lparr>mFrom = 30, mTo = 30, mEdgeLabel = ''d'', style = None\<rparr>)])],
      freeNodeIDs = [], others = []\<rparr>"

text \<open>
  Two nodes that were dragged into the top left corner of the world and clamped to the
  same centre, with the edges in both directions between them.
\<close>
definition coincidentViewer :: Store where
  "coincidentViewer =
     \<lparr>nodes = [(10, \<lparr>mPos = (kNodeRadius, kNodeRadius), mIndex = 0, mLabel = ''p''\<rparr>),
               (20, \<lparr>mPos = (kNodeRadius, kNodeRadius), mIndex = 1, mLabel = ''q''\<rparr>)],
      edges = [(10, [(20, \<lparr>mFrom = 10, mTo = 20, mEdgeLabel = ''a'', style = None\<rparr>)]),
               (20, [(10, \<lparr>mFrom = 20, mTo = 10, mEdgeLabel = ''b'', style = None\<rparr>)])],
      freeNodeIDs = [], others = []\<rparr>"

text \<open>
  The sample registry beside a second viewer that owns one node, at the address 50.
\<close>
definition guestViewer :: Store where
  "guestViewer =
     sampleViewer\<lparr>others := [(50, \<lparr>mPos = (1 / 2, 1 / 4), mIndex = 0, mLabel = ''g''\<rparr>)]\<rparr>"

section \<open>Collision counting: properties\<close>

lemma quadraticSolnsInRange_le1: "quadraticSolnsInRange a b c \<le> 1"
  by (simp add: quadraticSolnsInRange_def Let_def)

lemma quadratic_root_iff:
  fixes a b c t :: real
  assumes "a \<noteq> 0"
  shows "a * t\<^sup>2 + b * t + c = 0 \<longleftrightarrow>
         0 \<le> b * b - 4 * a * c \<and>
         (t = (- b + sqrt (b * b - 4 * a * c)) / (2 * a) \<or> t = (- b - sqrt (b * b - 4 * a * c)) / (2 * a))"
proof -
  let ?D = "b * b - 4 * a * c"
  have sq: "4 * a * (a * t\<^sup>2 + b * t + c) = (2 * a * t + b)\<^sup>2 - ?D"
    by (simp add: power2_eq_square algebra_simps)
  show ?thesis
  proof (cases "0 \<le> ?D")
    case False
    have "a * t\<^sup>2 + b * t + c \<noteq> 0"
    proof
      assume "a * t\<^sup>2 + b * t + c = 0"
      with sq have "(2 * a * t + b)\<^sup>2 = ?D" by simp
      moreover have "0 \<le> (2 * a * t + b)\<^sup>2" by simp
      ultimately show False using False by simp
    qed
    with False show ?thesis by simp
  next
    case True
    then have sD: "(sqrt ?D)\<^sup>2 = ?D" by simp
    have "a * t\<^sup>2 + b * t + c = 0 \<longleftrightarrow> 4 * a * (a * t\<^sup>2 + b * t + c) = 0"
      using assms by simp
    also have "\<dots> \<longleftrightarrow> (2 * a * t + b)\<^sup>2 = (sqrt ?D)\<^sup>2"
      using sq sD by auto
    also have "\<dots> \<longleftrightarrow> 2 * a * t + b = sqrt ?D \<or> 2 * a * t + b = - sqrt ?D"
      by (rule power2_eq_iff)
    also have "\<dots> \<longleftrightarrow> t = (- b + sqrt ?D) / (2 * a) \<or> t = (- b - sqrt ?D) / (2 * a)"
      using assms by (auto simp: field_simps)
    finally show ?thesis using True by simp
  qed
qed

lemma quadraticSolnsInRange_spec:
  fixes a b c :: real
  assumes "a \<noteq> 0"
  shows "quadraticSolnsInRange a b c = 1 \<longleftrightarrow>
           (\<exists>t. a * t\<^sup>2 + b * t + c = 0)
         \<and> \<not> (\<forall>t. a * t\<^sup>2 + b * t + c = 0 \<longrightarrow> t < 0)
         \<and> \<not> (\<forall>t. a * t\<^sup>2 + b * t + c = 0 \<longrightarrow> 1 < t)"
  using assms
  by (auto simp: quadratic_root_iff quadraticSolnsInRange_def Let_def)


lemma magnitudeOf_horizontal: "magnitudeOf (x, 0) = \<bar>x\<bar>"
  by (simp add: magnitudeOf_def dot_def)

lemma normalizationOf_horizontal:
  "0 < x \<Longrightarrow> normalizationOf (x, 0) = (1, 0)"
  "x < 0 \<Longrightarrow> normalizationOf (x, 0) = (- 1, 0)"
  by (simp_all add: normalizationOf_def magnitudeOf_horizontal)

lemma touching_nodes_degenerate_segment:
  "lineEndpoints False (0, 3 / 10) (7 / 100, 3 / 10)
     = ((35 / 1000, 3 / 10), (35 / 1000, 3 / 10))"
  by (simp add: lineEndpoints_def Let_def psub_def padd_def vscale_def kNodeRadius_def
        normalizationOf_horizontal)

text \<open>
  Claim C5. The collision counter is meant to count a segment exactly when the quadratic
  \<open>dot(d,d) t\<^sup>2 + 2 dot(d,s) t + (dot(s,s) - r\<^sup>2) = 0\<close> has real roots that are neither both
  below 0 nor both above 1. For a segment with \<open>d \<noteq> 0\<close> this is
  \<open>quadraticSolnsInRange_spec\<close>. For the degenerate segment from \<open>(0, 0)\<close> to \<open>(0, 0)\<close> and
  the circle of radius \<open>1/2\<close> around \<open>(1, 0)\<close> the quadratic is \<open>3/4 = 0\<close>, without a
  root, and the counter counts the segment all the same. Such segments occur: the edge
  between two nodes whose centres are \<open>2 * kNodeRadius\<close> apart is one
  (\<open>touching_nodes_degenerate_segment\<close>).
\<close>
theorem degenerate_segment_counted:
  "collisionsBetween_lines (1, 0) (1 / 2) [((0, 0), (0, 0))] = 1
   \<and> quadraticSolnsInRange 0 0 (3 / 4) = 1
   \<and> (\<forall>t::real. 0 * t\<^sup>2 + 0 * t + 3 / 4 \<noteq> 0)"
  by (simp add: collisionsBetween_lines_def quadraticSolnsInRange_def psub_def dot_def)

text \<open>
  Claim C6. The circle/circle collision counter returns 0 for every centre, radius and
  list of circles; so the collision count of a candidate, the height map and the chosen
  angle depend on the lines only, whatever the circles are.
\<close>
theorem circle_collisions_are_zero:
  "collisionsBetween_circles center radius circles = 0
   \<and> collisionsBetween center radius lines circles
       = collisionsBetween_lines center radius lines
   \<and> collisionMap stateCenter lines circles = collisionMap stateCenter lines circles'
   \<and> bestThetaFor stateCenter lines circles = bestThetaFor stateCenter lines circles'"
  by (simp add: collisionsBetween_circles_def collisionsBetween_def bestThetaFor_def
        collisionMap_def)

section \<open>The run search: properties\<close>

lemma candidateAngles_unfold:
  "candidateAngles kLowAngle =
     [-5, 5, 15, 25, 35, 45, 55, 65, 75, 85, 95, 105, 115, 125, 135, 145, 155, 165, 175,
      185, 195, 205, 215, 225, 235, 245, 255, 265, 275, 285, 295, 305, 315, 325, 335, 345]"
proof -
  have step: "candidateAngles d = (if d < 355 then d # candidateAngles (d + 10) else [])" for d
    by (subst candidateAngles.simps) (simp add: kHighAngle_def kAngleStep_def)
  show ?thesis
    unfolding kLowAngle_def by (simp add: step)
qed

lemma length_collisionMap: "length (collisionMap c lines circles) = 36"
  by (simp add: collisionMap_def candidateAngles_unfold)

lemma min_element_in_set: "cs \<noteq> [] \<Longrightarrow> min_element cs \<in> set cs"
  by (induction cs rule: min_element.induct) (auto simp: min_def)

lemma scanBackward_bounds:
  "0 < length cs \<Longrightarrow> st < length cs \<Longrightarrow> i \<le> length cs \<Longrightarrow>
     fst (scanBackward cs mn i (st, len)) < length cs
   \<and> snd (scanBackward cs mn i (st, len)) \<le> len + i"
proof (induction i arbitrary: st len)
  case 0
  then show ?case by simp
next
  case (Suc i)
  have "(st + length cs - 1) mod length cs < length cs"
    using Suc.prems(1) by simp
  from Suc.IH [OF Suc.prems(1) this, of "len + 1"] Suc.prems
  show ?case by auto
qed

lemma scanStep_runInv:
  "runInv cs mn i st \<Longrightarrow> i < length cs \<Longrightarrow> runInv cs mn (Suc i) (scanStep cs mn i st)"
  by (cases st) (auto simp: runInv_def scanStep_def less_Suc_eq)

lemma fold_scanStep_runInv:
  "runInv cs mn 0 st \<Longrightarrow> m \<le> length cs \<Longrightarrow>
   runInv cs mn m (fold (scanStep cs mn) [0 ..< m] st)"
proof (induction m)
  case 0
  then show ?case by simp
next
  case (Suc m)
  then show ?case by (simp add: scanStep_runInv)
qed

lemma longestMinRun_bounds:
  assumes "cs \<noteq> []"
  shows "fst (longestMinRun cs) \<le> length cs
       \<and> 1 \<le> snd (longestMinRun cs) \<and> snd (longestMinRun cs) \<le> 2 * length cs"
proof -
  let ?mn = "min_element cs"
  let ?n = "length cs"
  obtain st len where bk: "scanBackward cs ?mn ?n (0, 0) = (st, len)"
    by (cases "scanBackward cs ?mn ?n (0, 0)")
  have n0: "0 < ?n" using assms by simp
  from scanBackward_bounds [OF n0 n0 le_refl, of ?mn 0] bk
  have b: "st < ?n" "len \<le> ?n" by auto
  have inv0: "runInv cs ?mn 0 (0, 0, st, len)"
    using b by (simp add: runInv_def)
  obtain bs bl cst cl where fin:
    "fold (scanStep cs ?mn) [0 ..< ?n] (0, 0, st, len) = (bs, bl, cst, cl)"
    by (cases "fold (scanStep cs ?mn) [0 ..< ?n] (0, 0, st, len)")
  from fold_scanStep_runInv [OF inv0 le_refl] fin
  have inv: "runInv cs ?mn ?n (bs, bl, cst, cl)" by simp
  have "\<exists>j<?n. cs ! j = ?mn"
    using min_element_in_set [OF assms] by (simp add: in_set_conv_nth)
  with inv have "bs \<le> ?n" "cst \<le> ?n" "bl \<le> 2 * ?n" "cl \<le> 2 * ?n" "1 \<le> max bl cl"
    by (auto simp: runInv_def)
  then show ?thesis
    by (auto simp: longestMinRun_def Let_def bk fin)
qed

lemma thetaOfRun_plain:
  assumes "bs \<le> 36" "1 \<le> bl" "bl \<le> 72"
  shows "thetaOfRun (bs, bl) = (10 * real bs + 5 * real bl - 10) * pi / 180"
proof -
  have a: "(bs * nat 10) mod 2 ^ 64 = bs * 10"
    using assms by simp
  have "bs + bl + (2 ^ 64 - 1) = (bs + bl - 1) + 2 ^ 64"
    using assms by simp
  then have "(bs + bl + (2 ^ 64 - 1)) mod 2 ^ 64 = (bs + bl - 1) mod (2 ^ 64 :: nat)"
    by (metis mod_add_self2)
  also have "\<dots> = bs + bl - 1" using assms by simp
  finally have b: "(bs + bl + (2 ^ 64 - 1)) mod 2 ^ 64 = bs + bl - 1" .
  have c: "real (bs + bl - 1) = real bs + real bl - 1"
    using assms by simp
  show ?thesis
    unfolding thetaOfRun_def Let_def fst_conv snd_conv kLowAngle_def kAngleStep_def a b c
    by (simp add: field_simps)
qed


lemma min_element_replicate: "0 < n \<Longrightarrow> min_element (replicate n c) = c"
proof (induction n)
  case 0
  then show ?case by simp
next
  case (Suc n)
  then show ?case by (cases n) auto
qed

lemma scanBackward_all_min:
  "i \<le> n \<Longrightarrow> st < n \<Longrightarrow>
   scanBackward (replicate n c) c i (st, len) = ((st + i * (n - 1)) mod n, len + i)"
proof (induction i arbitrary: st len)
  case 0
  then show ?case by simp
next
  case (Suc i)
  have lt: "(st + n - 1) mod n < n" using Suc.prems by simp
  have "((st + n - 1) mod n + i * (n - 1)) mod n = ((st + n - 1) + i * (n - 1)) mod n"
    by (rule mod_add_left_eq)
  also have "(st + n - 1) + i * (n - 1) = st + Suc i * (n - 1)"
    using Suc.prems by simp
  finally have eq: "((st + n - 1) mod n + i * (n - 1)) mod n = (st + Suc i * (n - 1)) mod n" .
  from Suc.prems have "i \<le> n" "i < n" by simp_all
  with Suc.IH [OF \<open>i \<le> n\<close> lt, of "len + 1"] eq show ?case by simp
qed

lemma fold_scanStep_all_min:
  "m \<le> n \<Longrightarrow>
   fold (scanStep (replicate n c) c) [0 ..< m] (bs, bl, st, len) = (bs, bl, st, len + m)"
  by (induction m) (simp_all add: scanStep_def)

lemma longestMinRun_all_min:
  assumes "0 < n"
  shows "longestMinRun (replicate n c) = (0, 2 * n)"
proof -
  have "scanBackward (replicate n c) c n (0, 0) = (0, n)"
    using scanBackward_all_min [OF le_refl assms, of c 0] by simp
  then show ?thesis
    using assms
    by (simp add: longestMinRun_def min_element_replicate fold_scanStep_all_min)
qed

lemma all_tie_replicate:
  assumes "\<forall>x \<in> set cs. x = c"
  shows "cs = replicate (length cs) c"
  using assms by (induction cs) auto

lemma thetaOfRun_all_tie: "thetaOfRun (0, 72) = 350 * pi / 180"
  using thetaOfRun_plain [of 0 72] by simp

lemma quadraticSolnsInRange_no_root:
  "b * b - 4 * a * c < 0 \<Longrightarrow> quadraticSolnsInRange a b c = 0"
  by (simp add: quadraticSolnsInRange_def Let_def)

lemma square_less:
  fixes x y :: real
  assumes "0 \<le> x" "x < y"
  shows "x * x < y * y"
  using assms by (simp add: mult_strict_mono')

lemma inner_circle_misses_borders:
  assumes "0 \<le> R" "R < cx" "cx < 1 - R" "R < cy" "cy < 3 / 5 - R"
  shows "collisionsBetween_lines (cx, cy) R worldBoundaries = 0"
proof -
  have t: "R * R < cy * cy" using assms by (intro square_less) simp_all
  have b: "R * R < (3 / 5 - cy) * (3 / 5 - cy)" using assms by (intro square_less) simp_all
  have l: "R * R < cx * cx" using assms by (intro square_less) simp_all
  have r: "R * R < (1 - cx) * (1 - cx)" using assms by (intro square_less) simp_all
  have 1: "quadraticSolnsInRange 1 (2 * (0 - cx)) ((0 - cx) * (0 - cx) + (0 - cy) * (0 - cy) - R * R) = 0"
    by (rule quadraticSolnsInRange_no_root) (use t in \<open>simp add: algebra_simps\<close>)
  have 2: "quadraticSolnsInRange 1 (2 * (0 - cx))
             ((0 - cx) * (0 - cx) + (3 / 5 - cy) * (3 / 5 - cy) - R * R) = 0"
    by (rule quadraticSolnsInRange_no_root) (use b in \<open>simp add: algebra_simps\<close>)
  have 3: "quadraticSolnsInRange (3 / 5 * (3 / 5)) (2 * (3 / 5 * (0 - cy)))
             ((0 - cx) * (0 - cx) + (0 - cy) * (0 - cy) - R * R) = 0"
    by (rule quadraticSolnsInRange_no_root) (use l in \<open>simp add: algebra_simps\<close>)
  have 4: "quadraticSolnsInRange (3 / 5 * (3 / 5)) (2 * (3 / 5 * (0 - cy)))
             ((1 - cx) * (1 - cx) + (0 - cy) * (0 - cy) - R * R) = 0"
    by (rule quadraticSolnsInRange_no_root) (use r in \<open>simp add: algebra_simps\<close>)
  show ?thesis
    using 1 2 3 4
    by (simp add: collisionsBetween_lines_def worldBoundaries_def kAspectRatio_def psub_def
          dot_def Let_def)
qed

lemma candidate_centre_bounds:
  "fst pos - kNodeRadius \<le> fst (padd pos (vscale (unitToward theta) kNodeRadius))"
  "fst (padd pos (vscale (unitToward theta) kNodeRadius)) \<le> fst pos + kNodeRadius"
  "snd pos - kNodeRadius \<le> snd (padd pos (vscale (unitToward theta) kNodeRadius))"
  "snd (padd pos (vscale (unitToward theta) kNodeRadius)) \<le> snd pos + kNodeRadius"
proof -
  have r: "0 \<le> kNodeRadius" by (simp add: kNodeRadius_def)
  have c: "- 1 \<le> cos theta" "cos theta \<le> 1" "- 1 \<le> sin theta" "sin theta \<le> 1" by simp_all
  from mult_right_mono [OF c(1) r] show
    "fst pos - kNodeRadius \<le> fst (padd pos (vscale (unitToward theta) kNodeRadius))"
    by (simp add: padd_def vscale_def unitToward_def)
  from mult_right_mono [OF c(2) r] show
    "fst (padd pos (vscale (unitToward theta) kNodeRadius)) \<le> fst pos + kNodeRadius"
    by (simp add: padd_def vscale_def unitToward_def)
  from mult_right_mono [OF c(3) r] show
    "snd pos - kNodeRadius \<le> snd (padd pos (vscale (unitToward theta) kNodeRadius))"
    by (simp add: padd_def vscale_def unitToward_def)
  from mult_right_mono [OF c(4) r] show
    "snd (padd pos (vscale (unitToward theta) kNodeRadius)) \<le> snd pos + kNodeRadius"
    by (simp add: padd_def vscale_def unitToward_def)
qed

lemma isolated_node_no_collisions:
  assumes "2 * kNodeRadius \<le> fst pos" "fst pos \<le> 1 - 2 * kNodeRadius"
    "2 * kNodeRadius \<le> snd pos" "snd pos \<le> 3 / 5 - 2 * kNodeRadius"
  shows "collisionsBetween (padd pos (vscale (unitToward theta) kNodeRadius))
           kLoopTransitionRadius worldBoundaries circles = 0"
proof -
  define c where "c = padd pos (vscale (unitToward theta) kNodeRadius)"
  note b = candidate_centre_bounds [of pos theta, folded c_def]
  have R: "0 \<le> kLoopTransitionRadius" "kLoopTransitionRadius < kNodeRadius"
    by (simp_all add: kLoopTransitionRadius_def kNodeRadius_def)
  have "collisionsBetween_lines (fst c, snd c) kLoopTransitionRadius worldBoundaries = 0"
    by (rule inner_circle_misses_borders) (use assms b R in simp_all)
  then show ?thesis
    by (simp add: collisionsBetween_def collisionsBetween_circles_def c_def)
qed

lemma isolated_node_collisionMap:
  assumes "2 * kNodeRadius \<le> fst pos" "fst pos \<le> 1 - 2 * kNodeRadius"
    "2 * kNodeRadius \<le> snd pos" "snd pos \<le> 3 / 5 - 2 * kNodeRadius"
  shows "\<forall>n \<in> set (collisionMap pos worldBoundaries circles). n = 0"
  using isolated_node_no_collisions [OF assms]
  by (simp add: collisionMap_def Let_def)

text \<open>
  Claim C9. For every node centre and every configuration of lines and circles the search
  returns the mean of two angles computed from a start index of at most 36 and a run
  length between 1 and 72: no index leaves the vector and the unsigned subtraction never
  wraps, so the angle lies between -5 and 710 degrees. When every candidate has the same
  collision count the result is 350 degrees. The search is a total function: every loop
  is a structural recursion or a \<open>fold\<close> over a finite range.
\<close>
theorem bestThetaFor_defined:
  "(\<exists>bestStart bestLength.
       longestMinRun (collisionMap stateCenter lines circles) = (bestStart, bestLength)
     \<and> bestStart \<le> 36 \<and> 1 \<le> bestLength \<and> bestLength \<le> 72
     \<and> bestThetaFor stateCenter lines circles
           = (10 * real bestStart + 5 * real bestLength - 10) * pi / 180)
   \<and> - 5 * pi / 180 \<le> bestThetaFor stateCenter lines circles
   \<and> bestThetaFor stateCenter lines circles \<le> 710 * pi / 180
   \<and> ((\<forall>n \<in> set (collisionMap stateCenter lines circles). n = c)
        \<longrightarrow> bestThetaFor stateCenter lines circles = 350 * pi / 180)"
proof -
  let ?cs = "collisionMap stateCenter lines circles"
  have len: "length ?cs = 36" by (rule length_collisionMap)
  then have ne: "?cs \<noteq> []" by auto
  obtain bs bl where run: "longestMinRun ?cs = (bs, bl)"
    by (cases "longestMinRun ?cs")
  from longestMinRun_bounds [OF ne] run len
  have b: "bs \<le> 36" "1 \<le> bl" "bl \<le> 72" by simp_all
  have th: "bestThetaFor stateCenter lines circles
              = (10 * real bs + 5 * real bl - 10) * pi / 180"
    by (simp add: bestThetaFor_def run thetaOfRun_plain [OF b])
  have lo: "- 5 * pi / 180 \<le> bestThetaFor stateCenter lines circles"
  proof -
    have "- 5 \<le> 10 * real bs + 5 * real bl - 10" using b by simp
    from mult_right_mono [OF this pi_ge_zero]
    show ?thesis by (simp add: th)
  qed
  have hi: "bestThetaFor stateCenter lines circles \<le> 710 * pi / 180"
  proof -
    have "10 * real bs + 5 * real bl - 10 \<le> 710" using b by simp
    from mult_right_mono [OF this pi_ge_zero]
    show ?thesis by (simp add: th)
  qed
  have tie: "bestThetaFor stateCenter lines circles = 350 * pi / 180"
    if "\<forall>n \<in> set ?cs. n = c"
  proof -
    from all_tie_replicate [OF that] len have "?cs = replicate 36 c" by simp
    then have "longestMinRun ?cs = (0, 72)"
      using longestMinRun_all_min [of 36 c] by simp
    then show ?thesis
      by (simp add: bestThetaFor_def thetaOfRun_all_tie)
  qed
  from run b th lo hi tie show ?thesis by blast
qed

text \<open>A node alone in the middle of the world: no candidate circle meets a border, all
  candidates tie, and the loop is placed at 350 degrees.\<close>
theorem bestThetaFor_defined_witness:
  "bestThetaFor (1 / 2, 3 / 10) worldBoundaries [((1 / 2, 3 / 10), kNodeRadius)] = 350 * pi / 180"
proof -
  have "\<forall>n \<in> set (collisionMap (1 / 2, 3 / 10) worldBoundaries [((1 / 2, 3 / 10), kNodeRadius)]).
          n = 0"
    by (rule isolated_node_collisionMap) (simp_all add: kNodeRadius_def)
  with bestThetaFor_defined
         [of "(1 / 2, 3 / 10)" worldBoundaries "[((1 / 2, 3 / 10), kNodeRadius)]" 0]
  show ?thesis by blast
qed

section \<open>Route recomputation: properties\<close>

lemma map_of_inner_map:
  "map_of (map (\<lambda>(to, e). (to, g e)) inner) t = map_option g (map_of inner t)"
  by (simp add: map_of_map)

lemma map_of_mapEdges:
  "map_of (mapEdges g es) f = map_option (map (\<lambda>(to, e). (to, g e))) (map_of es f)"
  by (simp add: mapEdges_def map_of_map)

lemma map_fst_mapEdges: "map fst (mapEdges g es) = map fst es"
  by (simp add: mapEdges_def case_prod_beta comp_def)

lemma mapEdges_comp: "mapEdges g2 (mapEdges g1 es) = mapEdges (\<lambda>e. g2 (g1 e)) es"
  by (simp add: mapEdges_def case_prod_beta comp_def)

lemma edgeBetween_mapEdges:
  "edgeBetween (v\<lparr>edges := mapEdges g (edges v)\<rparr>) f t = map_option g (edgeBetween v f t)"
  by (simp add: edgeBetween_def map_of_mapEdges map_of_inner_map split: option.splits)

lemma hasEdge_mapEdges:
  "hasEdge (v\<lparr>edges := mapEdges g (edges v)\<rparr>) f t = hasEdge v f t"
  by (simp add: hasEdge_def map_of_mapEdges map_of_inner_map split: option.splits)

lemma forEachInner_map:
  assumes "\<And>x acc. x \<in> set inner \<Longrightarrow> \<exists>acc'. callback (snd x) acc = Inr (g (snd x), acc')"
  shows "\<exists>acc'. forEachInner callback inner acc = Inr (map (\<lambda>(to, e). (to, g e)) inner, acc')"
  using assms
proof (induction inner arbitrary: acc)
  case Nil
  then show ?case by simp
next
  case (Cons x inner)
  from Cons.prems [of x acc] obtain acc1 where 1: "callback (snd x) acc = Inr (g (snd x), acc1)"
    by auto
  from Cons.IH [of acc1] Cons.prems obtain acc2
    where 2: "forEachInner callback inner acc1 = Inr (map (\<lambda>(to, e). (to, g e)) inner, acc2)"
    by auto
  show ?case by (simp add: 1 2 case_prod_beta)
qed

lemma forEachEdge_map:
  assumes "\<And>x y acc. x \<in> set es \<Longrightarrow> y \<in> set (snd x)
             \<Longrightarrow> \<exists>acc'. callback (snd y) acc = Inr (g (snd y), acc')"
  shows "\<exists>acc'. forEachEdge callback es acc = Inr (mapEdges g es, acc')"
  using assms
proof (induction es arbitrary: acc)
  case Nil
  then show ?case by (simp add: mapEdges_def)
next
  case (Cons x es)
  have "\<exists>acc'. forEachInner callback (snd x) acc
                 = Inr (map (\<lambda>(to, e). (to, g e)) (snd x), acc')"
  proof (rule forEachInner_map)
    fix y acc
    assume "y \<in> set (snd x)"
    then show "\<exists>acc'. callback (snd y) acc = Inr (g (snd y), acc')"
      using Cons.prems [of x y acc] by simp
  qed
  then obtain acc1 where 1:
    "forEachInner callback (snd x) acc = Inr (map (\<lambda>(to, e). (to, g e)) (snd x), acc1)"
    by auto
  have "\<exists>acc'. forEachEdge callback es acc1 = Inr (mapEdges g es, acc')"
  proof (rule Cons.IH)
    fix x' y acc
    assume "x' \<in> set es" "y \<in> set (snd x')"
    then show "\<exists>acc'. callback (snd y) acc = Inr (g (snd y), acc')"
      using Cons.prems [of x' y acc] by simp
  qed
  then obtain acc2
    where 2: "forEachEdge callback es acc1 = Inr (mapEdges g es, acc2)"
    by auto
  show ?case by (simp add: 1 2 mapEdges_def case_prod_beta)
qed

lemma registered_alive: "registered v r \<Longrightarrow> alive v r"
  by (simp add: alive_def)

lemma positionOf_alive: "alive v r \<Longrightarrow> \<exists>p. positionOf v r = Inr p"
  by (auto simp: alive_def registered_def positionOf_def deref_def split: option.splits)

lemma edgesLive_readable: "edgesLive v \<Longrightarrow> edgesReadable v"
  by (auto simp: edgesLive_def edgesReadable_def alive_def)

lemma placeLine_ok:
  assumes "alive v (mFrom e)" "alive v (mTo e)"
  shows "\<exists>acc'. placeLine v e acc = Inr (lineRoute v e, acc')"
proof -
  from positionOf_alive [OF assms(1)] obtain p0 where "positionOf v (mFrom e) = Inr p0" ..
  moreover
  from positionOf_alive [OF assms(2)] obtain p1 where "positionOf v (mTo e) = Inr p1" ..
  ultimately show ?thesis
    by (simp add: placeLine_def lineRoute_def Let_def)
qed

lemma placeLoop_ok:
  assumes "alive v (mFrom e)"
  shows "\<exists>acc'. placeLoop v lines e acc = Inr (loopRoute v lines e, acc')"
proof -
  from positionOf_alive [OF assms] obtain pos where "positionOf v (mFrom e) = Inr pos" ..
  then show ?thesis
    by (auto simp: placeLoop_def loopRoute_def Let_def loopGeometry_def bestThetaFor_def
          collisionMap_def collisionsBetween_def collisionsBetween_circles_def)
qed

lemma lineRoute_fields [simp]:
  "mFrom (lineRoute v e) = mFrom e" "mTo (lineRoute v e) = mTo e"
  "mEdgeLabel (lineRoute v e) = mEdgeLabel e"
  by (auto simp: lineRoute_def placeLine_def Let_def split: sum.splits)

lemma loopRoute_fields [simp]:
  "mFrom (loopRoute v lines e) = mFrom e" "mTo (loopRoute v lines e) = mTo e"
  "mEdgeLabel (loopRoute v lines e) = mEdgeLabel e"
  by (auto simp: loopRoute_def placeLoop_def Let_def split: sum.splits)

lemma routed_fields [simp]:
  "mFrom (routed v lines e) = mFrom e" "mTo (routed v lines e) = mTo e"
  "mEdgeLabel (routed v lines e) = mEdgeLabel e"
  by (simp_all add: routed_def)

lemma calculateEdgeEndpoints_readable:
  assumes "edgesReadable v"
  shows "\<exists>lines. calculateEdgeEndpoints v = Inr (v\<lparr>edges := mapEdges (routed v lines) (edges v)\<rparr>)"
proof -
  have "\<exists>acc'. forEachEdge (placeLine v) (edges v) worldBoundaries
                 = Inr (mapEdges (lineRoute v) (edges v), acc')"
  proof (rule forEachEdge_map)
    fix x y acc
    assume "x \<in> set (edges v)" "y \<in> set (snd x)"
    with assms have "alive v (mFrom (snd y))" "alive v (mTo (snd y))"
      by (auto simp: edgesReadable_def)
    then show "\<exists>acc'. placeLine v (snd y) acc = Inr (lineRoute v (snd y), acc')"
      by (rule placeLine_ok)
  qed
  then obtain lines where 1:
    "forEachEdge (placeLine v) (edges v) worldBoundaries
       = Inr (mapEdges (lineRoute v) (edges v), lines)"
    by auto
  let ?circles = "map (\<lambda>state. (mPos (snd state), kNodeRadius)) (nodes v)"
  have "\<exists>acc'. forEachEdge (placeLoop v lines) (mapEdges (lineRoute v) (edges v)) ?circles
                 = Inr (mapEdges (loopRoute v lines) (mapEdges (lineRoute v) (edges v)), acc')"
  proof (rule forEachEdge_map)
    fix x y acc
    assume "x \<in> set (mapEdges (lineRoute v) (edges v))" "y \<in> set (snd x)"
    then obtain x0 y0 where "x0 \<in> set (edges v)" "y0 \<in> set (snd x0)"
      "snd y = lineRoute v (snd y0)"
      by (auto simp: mapEdges_def)
    with assms have "alive v (mFrom (snd y))"
      by (auto simp: edgesReadable_def)
    then show "\<exists>acc'. placeLoop v lines (snd y) acc = Inr (loopRoute v lines (snd y), acc')"
      by (rule placeLoop_ok)
  qed
  moreover have "(\<lambda>e. loopRoute v lines (lineRoute v e)) = routed v lines"
    by (simp add: routed_def fun_eq_iff)
  ultimately obtain circles' where 2:
    "forEachEdge (placeLoop v lines) (mapEdges (lineRoute v) (edges v)) ?circles
       = Inr (mapEdges (routed v lines) (edges v), circles')"
    by (auto simp: mapEdges_comp routed_def)
  show ?thesis
    by (rule exI [of _ lines]) (simp add: calculateEdgeEndpoints_def 1 2)
qed

lemma calculateEdgeEndpoints_ok:
  assumes "edgesLive v"
  shows "\<exists>lines. calculateEdgeEndpoints v = Inr (v\<lparr>edges := mapEdges (routed v lines) (edges v)\<rparr>)"
  by (rule calculateEdgeEndpoints_readable) (rule edgesLive_readable [OF assms])

section \<open>The registry: properties\<close>

lemma calculateEdgeEndpoints_no_edges:
  "edges v = [] \<Longrightarrow> calculateEdgeEndpoints v = Inr v"
  by (simp add: calculateEdgeEndpoints_def)

lemma clampToWorld_inWorldBounds: "inWorldBounds (clampToWorld pt)"
  by (simp add: clampToWorld_def inWorldBounds_def Let_def kNodeRadius_def kAspectRatio_def)

lemma clampToWorld_id: "inWorldBounds pt \<Longrightarrow> clampToWorld pt = pt"
  by (cases pt) (simp add: clampToWorld_def inWorldBounds_def Let_def)

lemma innerOf_in_edges:
  "map_of (edges v) from = Some inner \<Longrightarrow> innerOf v from = inner"
  by (simp add: innerOf_def)


subsection \<open>The containers\<close>

lemma set_insert_subset: "set (set_insert key x xs) \<subseteq> insert x (set xs)"
  by (induction xs) auto

lemma set_insert_superset: "set xs \<subseteq> set (set_insert key x xs)"
  by (induction xs) auto

lemma set_insert_sorted:
  "sorted_wrt (<) (map key xs) \<Longrightarrow> sorted_wrt (<) (map key (set_insert key x xs))"
proof (induction xs)
  case Nil
  then show ?case by simp
next
  case (Cons y ys)
  have "key y < key z" if "z \<in> set (set_insert key x ys)" "key y < key x" for z
    using that Cons.prems set_insert_subset [of key x ys] by auto
  with Cons show ?case by (auto simp: not_less less_le)
qed

lemma set_insert_fresh:
  "key x \<notin> key ` set xs \<Longrightarrow>
     set (set_insert key x xs) = insert x (set xs)
   \<and> length (set_insert key x xs) = Suc (length xs)"
  by (induction xs) auto

lemma map_of_set_insert_fresh:
  "a \<notin> fst ` set xs \<Longrightarrow> map_of (set_insert fst (a, n) xs) = (map_of xs)(a \<mapsto> n)"
  by (induction xs) (auto simp: fun_eq_iff)

lemma map_of_set_insert_keeps:
  "map_of xs r = Some y \<Longrightarrow> sorted_wrt (<) (map fst xs)
     \<Longrightarrow> map_of (set_insert fst (a, n) xs) r = Some y"
proof (induction xs)
  case Nil
  then show ?case by simp
next
  case (Cons z zs)
  show ?case
  proof (cases "r = fst z")
    case True
    with Cons.prems show ?thesis by auto
  next
    case False
    with Cons.prems have "map_of zs r = Some y" by simp
    then have "r \<in> fst ` set zs" by (metis map_of_eq_None_iff option.distinct(1))
    with Cons.prems have "fst z < r" by auto
    with Cons False \<open>map_of zs r = Some y\<close> show ?thesis by auto
  qed
qed

lemma in_set_updateD:
  "x \<in> set (AList.update k v al) \<Longrightarrow> x = (k, v) \<or> x \<in> set al"
  by (induction al) (auto split: if_splits)

lemma in_set_deleteD:
  "x \<in> set (AList.delete k al) \<Longrightarrow> x \<in> set al \<and> fst x \<noteq> k"
  by (induction al) (auto split: if_splits)

lemma sorted_wrt_update:
  "k \<in> fst ` set al \<Longrightarrow> map fst (AList.update k v al) = map fst al"
  by (simp add: update_keys)

subsection \<open>Well-formedness is kept\<close>

lemma registered_edges_upd [simp]: "registered (v\<lparr>edges := es\<rparr>) r = registered v r"
  by (simp add: registered_def)

lemma registered_free_upd [simp]: "registered (v\<lparr>freeNodeIDs := F\<rparr>) r = registered v r"
  by (simp add: registered_def)

lemma edgesLiveD:
  assumes "edgesLive v" "(f, inner) \<in> set (edges v)" "(t, e) \<in> set inner"
  shows "registered v f \<and> registered v t \<and> mFrom e = f \<and> mTo e = t"
proof -
  from assms(1,2) have "\<forall>e2 \<in> set (snd (f, inner)).
      registered v (fst (f, inner)) \<and> registered v (fst e2)
    \<and> mFrom (snd e2) = fst (f, inner) \<and> mTo (snd e2) = fst e2"
    unfolding edgesLive_def by (rule bspec)
  then have "\<forall>e2 \<in> set inner.
      registered v f \<and> registered v (fst e2) \<and> mFrom (snd e2) = f \<and> mTo (snd e2) = fst e2"
    by simp
  from bspec [OF this assms(3)] show ?thesis by simp
qed

lemma edgesLiveI:
  assumes "\<And>f inner t e. (f, inner) \<in> set (edges v) \<Longrightarrow> (t, e) \<in> set inner
             \<Longrightarrow> registered v f \<and> registered v t \<and> mFrom e = f \<and> mTo e = t"
  shows "edgesLive v"
  unfolding edgesLive_def
proof (intro ballI)
  fix e1 e2
  assume "e1 \<in> set (edges v)" "e2 \<in> set (snd e1)"
  then have "(fst e1, snd e1) \<in> set (edges v)" "(fst e2, snd e2) \<in> set (snd e1)" by simp_all
  from assms [OF this]
  show "registered v (fst e1) \<and> registered v (fst e2)
        \<and> mFrom (snd e2) = fst e1 \<and> mTo (snd e2) = fst e2" .
qed

lemma wellFormed_mapEdges:
  assumes "wellFormed v" "\<And>e. mFrom (g e) = mFrom e \<and> mTo (g e) = mTo e"
  shows "wellFormed (v\<lparr>edges := mapEdges g (edges v)\<rparr>)"
proof -
  have d: "distinct (map fst (mapEdges g (edges v)))"
    using assms(1) by (simp add: map_fst_mapEdges wellFormed_def containersValid_def)
  have i: "distinct (map fst (snd e1))" if "e1 \<in> set (mapEdges g (edges v))" for e1
    using that assms(1)
    by (auto simp: mapEdges_def wellFormed_def containersValid_def case_prod_beta comp_def)
  have l: "edgesLive (v\<lparr>edges := mapEdges g (edges v)\<rparr>)"
  proof (rule edgesLiveI)
    fix f inner t e
    assume "(f, inner) \<in> set (edges (v\<lparr>edges := mapEdges g (edges v)\<rparr>))" "(t, e) \<in> set inner"
    then obtain inner0 e0 where "(f, inner0) \<in> set (edges v)" "(t, e0) \<in> set inner0" "e = g e0"
      by (auto simp: mapEdges_def)
    with edgesLiveD [of v f inner0 t e0] assms
    show "registered (v\<lparr>edges := mapEdges g (edges v)\<rparr>) f
        \<and> registered (v\<lparr>edges := mapEdges g (edges v)\<rparr>) t \<and> mFrom e = f \<and> mTo e = t"
      by (simp add: wellFormed_def)
  qed
  from d i l assms(1) show ?thesis
    by (simp add: wellFormed_def containersValid_def)
qed

lemma wellFormed_free:
  "wellFormed v \<Longrightarrow> sorted_wrt (<) F \<Longrightarrow> wellFormed (v\<lparr>freeNodeIDs := F\<rparr>)"
  by (simp add: wellFormed_def containersValid_def edgesLive_def)

lemma wellFormed_nodes_insert:
  assumes "wellFormed v"
  shows "wellFormed (v\<lparr>nodes := set_insert fst (a, n) (nodes v)\<rparr>)"
proof -
  have s: "sorted_wrt (<) (map fst (nodes v))"
    using assms by (simp add: wellFormed_def containersValid_def)
  have r: "registered (v\<lparr>nodes := set_insert fst (a, n) (nodes v)\<rparr>) x" if "registered v x" for x
    using that s by (auto simp: registered_def map_of_set_insert_keeps)
  have "edgesLive (v\<lparr>nodes := set_insert fst (a, n) (nodes v)\<rparr>)"
  proof (rule edgesLiveI)
    fix f inner t e
    assume "(f, inner) \<in> set (edges (v\<lparr>nodes := set_insert fst (a, n) (nodes v)\<rparr>))"
      "(t, e) \<in> set inner"
    with edgesLiveD [of v f inner t e] assms r
    show "registered (v\<lparr>nodes := set_insert fst (a, n) (nodes v)\<rparr>) f
        \<and> registered (v\<lparr>nodes := set_insert fst (a, n) (nodes v)\<rparr>) t \<and> mFrom e = f \<and> mTo e = t"
      by (simp add: wellFormed_def)
  qed
  with assms set_insert_sorted [OF s] show ?thesis
    by (simp add: wellFormed_def containersValid_def)
qed

lemma wellFormed_nodes_update:
  assumes "wellFormed v" "registered v node"
  shows "wellFormed (v\<lparr>nodes := AList.update node n' (nodes v)\<rparr>)"
proof -
  from assms(2) have "node \<in> fst ` set (nodes v)"
    by (simp add: registered_def map_of_eq_None_iff)
  then have k: "map fst (AList.update node n' (nodes v)) = map fst (nodes v)"
    by (rule sorted_wrt_update)
  have r: "registered (v\<lparr>nodes := AList.update node n' (nodes v)\<rparr>) x" if "registered v x" for x
    using that by (simp add: registered_def update_conv')
  have "edgesLive (v\<lparr>nodes := AList.update node n' (nodes v)\<rparr>)"
  proof (rule edgesLiveI)
    fix f inner t e
    assume "(f, inner) \<in> set (edges (v\<lparr>nodes := AList.update node n' (nodes v)\<rparr>))"
      "(t, e) \<in> set inner"
    with edgesLiveD [of v f inner t e] assms r
    show "registered (v\<lparr>nodes := AList.update node n' (nodes v)\<rparr>) f
        \<and> registered (v\<lparr>nodes := AList.update node n' (nodes v)\<rparr>) t \<and> mFrom e = f \<and> mTo e = t"
      by (simp add: wellFormed_def)
  qed
  with assms(1) k show ?thesis
    by (simp add: wellFormed_def containersValid_def)
qed

lemma innerOf_cases: "innerOf v from = [] \<or> (from, innerOf v from) \<in> set (edges v)"
  by (auto simp: innerOf_def split: option.splits dest: map_of_SomeD)

lemma wellFormed_edges_replace:
  assumes "wellFormed v" "distinct (map fst inner')"
    "\<And>t e. (t, e) \<in> set inner' \<Longrightarrow>
        registered v from \<and> registered v t \<and> mFrom e = from \<and> mTo e = t"
  shows "wellFormed (v\<lparr>edges := AList.update from inner' (edges v)\<rparr>)"
proof -
  have c: "containersValid (v\<lparr>edges := AList.update from inner' (edges v)\<rparr>)"
    using assms(1,2)
    by (auto simp: wellFormed_def containersValid_def distinct_update dest!: in_set_updateD)
  have "edgesLive (v\<lparr>edges := AList.update from inner' (edges v)\<rparr>)"
  proof (rule edgesLiveI)
    fix f inner t e
    assume "(f, inner) \<in> set (edges (v\<lparr>edges := AList.update from inner' (edges v)\<rparr>))"
      and te: "(t, e) \<in> set inner"
    then have "(f, inner) = (from, inner') \<or> (f, inner) \<in> set (edges v)"
      by (auto dest: in_set_updateD)
    then show "registered (v\<lparr>edges := AList.update from inner' (edges v)\<rparr>) f
        \<and> registered (v\<lparr>edges := AList.update from inner' (edges v)\<rparr>) t
        \<and> mFrom e = f \<and> mTo e = t"
    proof
      assume "(f, inner) = (from, inner')"
      with te assms(3) [of t e] show ?thesis by simp
    next
      assume "(f, inner) \<in> set (edges v)"
      with te edgesLiveD [of v f inner t e] assms(1) show ?thesis
        by (simp add: wellFormed_def)
    qed
  qed
  with c show ?thesis by (simp add: wellFormed_def)
qed

lemma wellFormed_edge_update:
  assumes "wellFormed v" "registered v from" "registered v to"
    "mFrom e = from" "mTo e = to"
  shows "wellFormed (v\<lparr>edges := AList.update from (AList.update to e (innerOf v from))
                                   (edges v)\<rparr>)"
proof (rule wellFormed_edges_replace [OF assms(1)])
  show "distinct (map fst (AList.update to e (innerOf v from)))"
    using innerOf_cases [of v "from"] assms(1)
    by (auto simp: wellFormed_def containersValid_def distinct_update)
next
  fix t e'
  assume "(t, e') \<in> set (AList.update to e (innerOf v from))"
  then have "(t, e') = (to, e) \<or> (t, e') \<in> set (innerOf v from)"
    by (rule in_set_updateD)
  then show "registered v from \<and> registered v t \<and> mFrom e' = from \<and> mTo e' = t"
  proof
    assume "(t, e') = (to, e)"
    with assms show ?thesis by simp
  next
    assume "(t, e') \<in> set (innerOf v from)"
    with innerOf_cases [of v "from"] edgesLiveD [of v "from" "innerOf v from" t e'] assms(1)
    show ?thesis by (auto simp: wellFormed_def)
  qed
qed

lemma wellFormed_edge_delete:
  assumes "wellFormed v"
  shows "wellFormed (v\<lparr>edges := AList.update from (AList.delete to (innerOf v from))
                                   (edges v)\<rparr>)"
proof (rule wellFormed_edges_replace [OF assms(1)])
  show "distinct (map fst (AList.delete to (innerOf v from)))"
    using innerOf_cases [of v "from"] assms(1)
    by (auto simp: wellFormed_def containersValid_def distinct_delete)
next
  fix t e'
  assume "(t, e') \<in> set (AList.delete to (innerOf v from))"
  then have "(t, e') \<in> set (innerOf v from)"
    by (auto dest: in_set_deleteD)
  with innerOf_cases [of v "from"] edgesLiveD [of v "from" "innerOf v from" t e'] assms(1)
  show "registered v from \<and> registered v t \<and> mFrom e' = from \<and> mTo e' = t"
    by (auto simp: wellFormed_def)
qed

subsection \<open>What a recomputation leaves as it is\<close>

lemma hasEdge_edgeBetween: "hasEdge v f t = (edgeBetween v f t \<noteq> None)"
  by (simp add: hasEdge_def edgeBetween_def split: option.splits)

lemma sameEdge_refl [simp]: "sameEdge e e"
  by (simp add: sameEdge_def)

lemma sameEdge_trans: "sameEdge a b \<Longrightarrow> sameEdge b c \<Longrightarrow> sameEdge a c"
  by (simp add: sameEdge_def)

lemma sameEdge_routed [simp]: "sameEdge e (routed v lines e)"
  by (simp add: sameEdge_def)

lemma rel_sameEdge_refl [simp]: "rel_option sameEdge x x"
  by (cases x) simp_all

lemma rel_sameEdge_routed: "rel_option sameEdge x (map_option (routed v lines) x)"
  by (cases x) simp_all

lemma rel_sameEdge_trans:
  "rel_option sameEdge x y \<Longrightarrow> rel_option sameEdge y z \<Longrightarrow> rel_option sameEdge x z"
  by (cases x; cases y; cases z) (auto intro: sameEdge_trans)

lemma rel_sameEdge_None: "rel_option sameEdge x y \<Longrightarrow> (y = None) = (x = None)"
  by (cases x; cases y) simp_all

lemma routed_style:
  assumes "registered v (mFrom e)" "registered v (mTo e)"
  shows "style (routed v lines e) \<noteq> None"
proof (cases "mFrom e = mTo e")
  case True
  with assms show ?thesis
    by (auto simp: routed_def loopRoute_def lineRoute_def placeLoop_def placeLine_def
          positionOf_def deref_def registered_def Let_def)
next
  case False
  with assms show ?thesis
    by (auto simp: routed_def loopRoute_def lineRoute_def placeLoop_def placeLine_def
          positionOf_def deref_def registered_def Let_def)
qed

lemma edgeBetween_registered:
  assumes "wellFormed v" "edgeBetween v f t = Some e"
  shows "registered v f \<and> registered v t \<and> mFrom e = f \<and> mTo e = t"
proof -
  from assms(2) obtain inner where "map_of (edges v) f = Some inner" "map_of inner t = Some e"
    by (auto simp: edgeBetween_def split: option.splits)
  then have "(f, inner) \<in> set (edges v)" "(t, e) \<in> set inner"
    by (auto dest: map_of_SomeD)
  with assms(1) show ?thesis
    by (auto simp: wellFormed_def dest: edgesLiveD)
qed

lemma recalc_summary:
  assumes "wellFormed v"
  shows "\<exists>v'. calculateEdgeEndpoints v = Inr v' \<and> wellFormed v'
           \<and> nodes v' = nodes v \<and> freeNodeIDs v' = freeNodeIDs v
           \<and> (\<forall>f t. rel_option sameEdge (edgeBetween v f t) (edgeBetween v' f t))
           \<and> (\<forall>f t e. edgeBetween v' f t = Some e \<longrightarrow> style e \<noteq> None)"
proof -
  from assms have "edgesLive v" by (simp add: wellFormed_def)
  from calculateEdgeEndpoints_ok [OF this] obtain lines where
    c: "calculateEdgeEndpoints v = Inr (v\<lparr>edges := mapEdges (routed v lines) (edges v)\<rparr>)"
    by auto
  let ?v' = "v\<lparr>edges := mapEdges (routed v lines) (edges v)\<rparr>"
  have w: "wellFormed ?v'"
    by (rule wellFormed_mapEdges [OF assms]) simp
  have r: "rel_option sameEdge (edgeBetween v f t) (edgeBetween ?v' f t)" for f t
    by (simp add: edgeBetween_mapEdges rel_sameEdge_routed)
  have s: "style e \<noteq> None" if "edgeBetween ?v' f t = Some e" for f t e
  proof -
    from that obtain e0 where e0: "edgeBetween v f t = Some e0" "e = routed v lines e0"
      by (auto simp: edgeBetween_mapEdges)
    from edgeBetween_registered [OF assms e0(1)] e0(2) show ?thesis
      by (simp add: routed_style)
  qed
  from c w r s show ?thesis by auto
qed

subsection \<open>The operations on a well-formed registry\<close>

lemma edgeBetween_nodes_upd [simp]: "edgeBetween (v\<lparr>nodes := ns\<rparr>) f t = edgeBetween v f t"
  by (simp add: edgeBetween_def)

lemma edgeBetween_free_upd [simp]: "edgeBetween (v\<lparr>freeNodeIDs := F\<rparr>) f t = edgeBetween v f t"
  by (simp add: edgeBetween_def)

lemma sorted_wrt_tl: "sorted_wrt P xs \<Longrightarrow> sorted_wrt P (tl xs)"
  by (cases xs) simp_all

lemma newNodeNoAux_summary:
  assumes "wellFormed v"
  shows "\<exists>v'. newNodeNoAux addr pt index label v = Inr (addr, v') \<and> wellFormed v'
           \<and> nodes v' = set_insert fst (addr, \<lparr>mPos = pt, mIndex = index, mLabel = label\<rparr>)
                          (nodes v)
           \<and> freeNodeIDs v' = freeNodeIDs v
           \<and> (\<forall>f t. rel_option sameEdge (edgeBetween v f t) (edgeBetween v' f t))"
proof -
  from recalc_summary [OF assms] obtain v1 where
    v1: "calculateEdgeEndpoints v = Inr v1" "wellFormed v1" "nodes v1 = nodes v"
      "freeNodeIDs v1 = freeNodeIDs v"
      "\<forall>f t. rel_option sameEdge (edgeBetween v f t) (edgeBetween v1 f t)"
    by blast
  let ?n = "\<lparr>mPos = pt, mIndex = index, mLabel = label\<rparr>"
  have "wellFormed (v1\<lparr>nodes := set_insert fst (addr, ?n) (nodes v1)\<rparr>)"
    by (rule wellFormed_nodes_insert [OF v1(2)])
  with v1 show ?thesis
    by (simp add: newNodeNoAux_def)
qed

lemma newNode_summary:
  assumes "wellFormed v"
  shows "\<exists>v'. newNode addr pt v = Inr (addr, v') \<and> wellFormed v'
           \<and> nodes v' = set_insert fst
                 (addr, \<lparr>mPos = pt,
                         mIndex = (if freeNodeIDs v \<noteq> [] then size_t_of_int (hd (freeNodeIDs v))
                                   else numNodes v),
                         mLabel = ''''\<rparr>) (nodes v)
           \<and> freeNodeIDs v' = (if freeNodeIDs v \<noteq> [] then tl (freeNodeIDs v) else [])
           \<and> (\<forall>f t. rel_option sameEdge (edgeBetween v f t) (edgeBetween v' f t))"
proof (cases "freeNodeIDs v = []")
  case True
  with newNodeNoAux_summary [OF assms, of addr pt "numNodes v" "''''"] show ?thesis
    by (simp add: newNode_def Let_def)
next
  case False
  from assms have "sorted_wrt (<) (tl (freeNodeIDs v))"
    by (simp add: wellFormed_def containersValid_def sorted_wrt_tl)
  with assms have "wellFormed (v\<lparr>freeNodeIDs := tl (freeNodeIDs v)\<rparr>)"
    by (rule wellFormed_free)
  from newNodeNoAux_summary [OF this, of addr pt "size_t_of_int (hd (freeNodeIDs v))" "''''"]
    False
  show ?thesis
    by (simp add: newNode_def Let_def)
qed

lemma edgeBetween_edge_update:
  "edgeBetween (v\<lparr>edges := AList.update from (AList.update to e (innerOf v from)) (edges v)\<rparr>) f t
     = (if f = from \<and> t = to then Some e else edgeBetween v f t)"
  by (simp add: edgeBetween_def update_conv' innerOf_def split: option.splits)

lemma edgeBetween_edge_delete:
  "edgeBetween (v\<lparr>edges := AList.update from (AList.delete to (innerOf v from)) (edges v)\<rparr>) f t
     = (if f = from \<and> t = to then None else edgeBetween v f t)"
  by (simp add: edgeBetween_def update_conv' delete_conv' innerOf_def split: option.splits)

lemma registered_same_nodes: "nodes v' = nodes v \<Longrightarrow> registered v' r = registered v r"
  by (simp add: registered_def)

lemma newEdge_summary:
  assumes "wellFormed v" "registered v from" "registered v to"
  shows "\<exists>v'. newEdge from to label v = Inr v' \<and> wellFormed v'
           \<and> nodes v' = nodes v \<and> freeNodeIDs v' = freeNodeIDs v
           \<and> (\<forall>f t. rel_option sameEdge
                       (if f = from \<and> t = to
                        then Some \<lparr>mFrom = from, mTo = to, mEdgeLabel = label, style = None\<rparr>
                        else edgeBetween v f t)
                       (edgeBetween v' f t))
           \<and> (\<forall>f t e. edgeBetween v' f t = Some e \<longrightarrow> style e \<noteq> None)"
proof -
  from recalc_summary [OF assms(1)] obtain v1 where
    v1: "calculateEdgeEndpoints v = Inr v1" "wellFormed v1" "nodes v1 = nodes v"
      "freeNodeIDs v1 = freeNodeIDs v"
      "\<forall>f t. rel_option sameEdge (edgeBetween v f t) (edgeBetween v1 f t)"
    by blast
  define e where "e = \<lparr>mFrom = from, mTo = to, mEdgeLabel = label, style = None\<rparr>"
  define v2 where
    "v2 = v1\<lparr>edges := AList.update from (AList.update to e (innerOf v1 from)) (edges v1)\<rparr>"
  have r1: "registered v1 from" "registered v1 to"
    using assms(2,3) v1(3) by (simp_all add: registered_def)
  have w2: "wellFormed v2"
    unfolding v2_def by (rule wellFormed_edge_update [OF v1(2) r1]) (simp_all add: e_def)
  have n2: "nodes v2 = nodes v1" "freeNodeIDs v2 = freeNodeIDs v1"
    by (simp_all add: v2_def)
  have e2: "edgeBetween v2 f t = (if f = from \<and> t = to then Some e else edgeBetween v1 f t)"
    for f t
    unfolding v2_def by (rule edgeBetween_edge_update)
  from recalc_summary [OF w2] obtain v3 where
    v3: "calculateEdgeEndpoints v2 = Inr v3" "wellFormed v3" "nodes v3 = nodes v2"
      "freeNodeIDs v3 = freeNodeIDs v2"
      "\<forall>f t. rel_option sameEdge (edgeBetween v2 f t) (edgeBetween v3 f t)"
      "\<forall>f t e. edgeBetween v3 f t = Some e \<longrightarrow> style e \<noteq> None"
    by blast
  have r: "rel_option sameEdge (if f = from \<and> t = to then Some e else edgeBetween v f t)
             (edgeBetween v3 f t)" for f t
  proof -
    have "rel_option sameEdge (if f = from \<and> t = to then Some e else edgeBetween v f t)
            (edgeBetween v2 f t)"
      using v1(5) by (simp add: e2)
    moreover have "rel_option sameEdge (edgeBetween v2 f t) (edgeBetween v3 f t)"
      using v3(5) by blast
    ultimately show ?thesis by (rule rel_sameEdge_trans)
  qed
  have c: "newEdge from to label v = Inr v3"
    using v1(1) v3(1) by (simp add: newEdge_def newEdgeNoAux_def v2_def e_def)
  show ?thesis
  proof (intro exI conjI)
    show "newEdge from to label v = Inr v3" by (rule c)
    show "wellFormed v3" by (rule v3(2))
    show "nodes v3 = nodes v" using v3(3) n2(1) v1(3) by simp
    show "freeNodeIDs v3 = freeNodeIDs v" using v3(4) n2(2) v1(4) by simp
    show "\<forall>f t. rel_option sameEdge
            (if f = from \<and> t = to
             then Some \<lparr>mFrom = from, mTo = to, mEdgeLabel = label, style = None\<rparr>
             else edgeBetween v f t) (edgeBetween v3 f t)"
      using r unfolding e_def by blast
    show "\<forall>f t e. edgeBetween v3 f t = Some e \<longrightarrow> style e \<noteq> None" by (rule v3(6))
  qed
qed

lemma removeEdge_summary:
  assumes "wellFormed v"
  shows "\<exists>v'. removeEdge e v = Inr v' \<and> wellFormed v'
           \<and> nodes v' = nodes v \<and> freeNodeIDs v' = freeNodeIDs v
           \<and> (\<forall>f t. rel_option sameEdge
                       (if f = mFrom e \<and> t = mTo e then None else edgeBetween v f t)
                       (edgeBetween v' f t))
           \<and> (\<forall>f t e'. edgeBetween v' f t = Some e' \<longrightarrow> style e' \<noteq> None)"
proof -
  define v1 where
    "v1 = v\<lparr>edges := AList.update (mFrom e) (AList.delete (mTo e) (innerOf v (mFrom e)))
                       (edges v)\<rparr>"
  have w1: "wellFormed v1"
    unfolding v1_def by (rule wellFormed_edge_delete [OF assms])
  have n1: "nodes v1 = nodes v" "freeNodeIDs v1 = freeNodeIDs v"
    by (simp_all add: v1_def)
  have e1: "edgeBetween v1 f t = (if f = mFrom e \<and> t = mTo e then None else edgeBetween v f t)"
    for f t
    unfolding v1_def by (rule edgeBetween_edge_delete)
  from recalc_summary [OF w1] obtain v2 where
    v2: "calculateEdgeEndpoints v1 = Inr v2" "wellFormed v2" "nodes v2 = nodes v1"
      "freeNodeIDs v2 = freeNodeIDs v1"
      "\<forall>f t. rel_option sameEdge (edgeBetween v1 f t) (edgeBetween v2 f t)"
      "\<forall>f t e'. edgeBetween v2 f t = Some e' \<longrightarrow> style e' \<noteq> None"
    by blast
  have c: "removeEdge e v = Inr v2"
    using v2(1) by (simp add: removeEdge_def v1_def)
  show ?thesis
  proof (intro exI conjI)
    show "removeEdge e v = Inr v2" by (rule c)
    show "wellFormed v2" by (rule v2(2))
    show "nodes v2 = nodes v" using v2(3) n1(1) by simp
    show "freeNodeIDs v2 = freeNodeIDs v" using v2(4) n1(2) by simp
    show "\<forall>f t. rel_option sameEdge
            (if f = mFrom e \<and> t = mTo e then None else edgeBetween v f t) (edgeBetween v2 f t)"
      using v2(5) by (simp add: e1)
    show "\<forall>f t e'. edgeBetween v2 f t = Some e' \<longrightarrow> style e' \<noteq> None" by (rule v2(6))
  qed
qed

lemma Node_position_summary:
  assumes "wellFormed v" "map_of (nodes v) node = Some n"
  shows "\<exists>v'. Node_position node pt v = Inr v' \<and> wellFormed v'
           \<and> map_of (nodes v') = (map_of (nodes v))(node \<mapsto> n\<lparr>mPos := clampToWorld pt\<rparr>)
           \<and> map fst (nodes v') = map fst (nodes v)
           \<and> freeNodeIDs v' = freeNodeIDs v
           \<and> (\<forall>f t. rel_option sameEdge (edgeBetween v f t) (edgeBetween v' f t))
           \<and> (\<forall>f t e. edgeBetween v' f t = Some e \<longrightarrow> style e \<noteq> None)"
proof -
  define v1 where
    "v1 = v\<lparr>nodes := AList.update node (n\<lparr>mPos := clampToWorld pt\<rparr>) (nodes v)\<rparr>"
  from assms(2) have reg: "registered v node" by (simp add: registered_def)
  have w1: "wellFormed v1"
    unfolding v1_def by (rule wellFormed_nodes_update [OF assms(1) reg])
  from reg have "node \<in> fst ` set (nodes v)"
    by (simp add: registered_def map_of_eq_None_iff)
  then have k: "map fst (nodes v1) = map fst (nodes v)"
    by (simp add: update_keys v1_def)
  have m: "map_of (nodes v1) = (map_of (nodes v))(node \<mapsto> n\<lparr>mPos := clampToWorld pt\<rparr>)"
    by (simp add: v1_def update_conv')
  have n1: "freeNodeIDs v1 = freeNodeIDs v" "\<And>f t. edgeBetween v1 f t = edgeBetween v f t"
    by (simp_all add: v1_def)
  from recalc_summary [OF w1] obtain v2 where
    v2: "calculateEdgeEndpoints v1 = Inr v2" "wellFormed v2" "nodes v2 = nodes v1"
      "freeNodeIDs v2 = freeNodeIDs v1"
      "\<forall>f t. rel_option sameEdge (edgeBetween v1 f t) (edgeBetween v2 f t)"
      "\<forall>f t e. edgeBetween v2 f t = Some e \<longrightarrow> style e \<noteq> None"
    by blast
  have c: "Node_position node pt v = Inr v2"
    using v2(1) assms(2) by (simp add: Node_position_def v1_def)
  show ?thesis
  proof (intro exI conjI)
    show "Node_position node pt v = Inr v2" by (rule c)
    show "wellFormed v2" by (rule v2(2))
    show "map_of (nodes v2) = (map_of (nodes v))(node \<mapsto> n\<lparr>mPos := clampToWorld pt\<rparr>)"
      using v2(3) m by simp
    show "map fst (nodes v2) = map fst (nodes v)" using v2(3) k by simp
    show "freeNodeIDs v2 = freeNodeIDs v" using v2(4) n1(1) by simp
    show "\<forall>f t. rel_option sameEdge (edgeBetween v f t) (edgeBetween v2 f t)"
      using v2(5) by (simp add: n1(2))
    show "\<forall>f t e. edgeBetween v2 f t = Some e \<longrightarrow> style e \<noteq> None" by (rule v2(6))
  qed
qed

lemma removeNode_unregistered:
  "\<not> registered v node \<Longrightarrow> removeNode node v = Inr v"
  by (simp add: removeNode_def registered_def)

text \<open>The erase from \<open>nodes\<close> has destroyed the node when \<open>removeNode\<close> reads its index.\<close>
lemma removeNode_registered:
  assumes "map_of (nodes v) node = Some n" "map_of (others v) node = None"
  shows "removeNode node v = Inl (DanglingNode node)"
  using assms by (simp add: removeNode_def Let_def indexOf_def deref_def delete_conv')

subsection \<open>Nodes of another viewer\<close>

lemma registered_others_upd [simp]: "registered (v\<lparr>others := os\<rparr>) r = registered v r"
  by (simp add: registered_def)

lemma alive_edges_upd [simp]: "alive (v\<lparr>edges := es\<rparr>) r = alive v r"
  by (simp add: alive_def)

lemma edgeBetween_others_upd [simp]: "edgeBetween (v\<lparr>others := os\<rparr>) f t = edgeBetween v f t"
  by (simp add: edgeBetween_def)

lemma wellFormed_others_upd [simp]: "wellFormed (v\<lparr>others := os\<rparr>) = wellFormed v"
  by (simp add: wellFormed_def containersValid_def edgesLive_def)

lemma calculateEdgeEndpoints_frame:
  assumes "calculateEdgeEndpoints v = Inr v'"
  shows "nodes v' = nodes v \<and> freeNodeIDs v' = freeNodeIDs v \<and> others v' = others v"
  using assms by (auto simp: calculateEdgeEndpoints_def Let_def split: sum.splits)

lemma edgesLive_edgeBetween:
  assumes "edgesLive v" "edgeBetween v f t = Some e"
  shows "registered v f \<and> registered v t"
proof -
  from assms(2) obtain inner where "map_of (edges v) f = Some inner" "map_of inner t = Some e"
    by (auto simp: edgeBetween_def split: option.splits)
  then have "(f, inner) \<in> set (edges v)" "(t, e) \<in> set inner"
    by (auto dest: map_of_SomeD)
  from edgesLiveD [OF assms(1) this] show ?thesis by simp
qed

text \<open>\<open>newEdge\<close> between two nodes that are alive, registered or not.\<close>
lemma newEdge_alive:
  assumes "wellFormed v" "alive v from" "alive v to"
  shows "\<exists>v'. newEdge from to label v = Inr v'
           \<and> nodes v' = nodes v \<and> freeNodeIDs v' = freeNodeIDs v \<and> others v' = others v
           \<and> (\<forall>f t. rel_option sameEdge
                       (if f = from \<and> t = to
                        then Some \<lparr>mFrom = from, mTo = to, mEdgeLabel = label, style = None\<rparr>
                        else edgeBetween v f t)
                       (edgeBetween v' f t))"
proof -
  from recalc_summary [OF assms(1)] obtain v1 where
    v1: "calculateEdgeEndpoints v = Inr v1" "wellFormed v1"
      "\<forall>f t. rel_option sameEdge (edgeBetween v f t) (edgeBetween v1 f t)"
    by blast
  from calculateEdgeEndpoints_frame [OF v1(1)] have
    f1: "nodes v1 = nodes v" "freeNodeIDs v1 = freeNodeIDs v" "others v1 = others v"
    by simp_all
  define e where "e = \<lparr>mFrom = from, mTo = to, mEdgeLabel = label, style = None\<rparr>"
  define v2 where
    "v2 = v1\<lparr>edges := AList.update from (AList.update to e (innerOf v1 from)) (edges v1)\<rparr>"
  have a2: "alive v2 x = alive v x" for x
    by (simp add: v2_def alive_def registered_def f1)
  from v1(2) have l1: "edgesLive v1" by (simp add: wellFormed_def)
  have "edgesReadable v2"
    unfolding edgesReadable_def
  proof (intro ballI)
    fix x y
    assume x: "x \<in> set (edges v2)" and y: "y \<in> set (snd x)"
    from x have "x = (from, AList.update to e (innerOf v1 from)) \<or> x \<in> set (edges v1)"
      unfolding v2_def by (auto dest: in_set_updateD)
    then have "y = (to, e) \<or> (\<exists>x0 \<in> set (edges v1). y \<in> set (snd x0))"
    proof
      assume "x = (from, AList.update to e (innerOf v1 from))"
      with y have "y = (to, e) \<or> y \<in> set (innerOf v1 from)"
        by (auto dest: in_set_updateD)
      then show ?thesis
      proof
        assume "y = (to, e)"
        then show ?thesis ..
      next
        assume i: "y \<in> set (innerOf v1 from)"
        then have "innerOf v1 from \<noteq> []" by auto
        with innerOf_cases [of v1 "from"] have "(from, innerOf v1 from) \<in> set (edges v1)"
          by simp
        with i have "\<exists>x0 \<in> set (edges v1). y \<in> set (snd x0)"
          by (intro bexI [of _ "(from, innerOf v1 from)"]) simp_all
        then show ?thesis ..
      qed
    next
      assume "x \<in> set (edges v1)"
      with y show ?thesis by auto
    qed
    then show "alive v2 (mFrom (snd y)) \<and> alive v2 (mTo (snd y))"
    proof
      assume "y = (to, e)"
      with assms(2,3) show ?thesis by (simp add: a2 e_def)
    next
      assume "\<exists>x0 \<in> set (edges v1). y \<in> set (snd x0)"
      then obtain x0 where "(fst x0, snd x0) \<in> set (edges v1)" "(fst y, snd y) \<in> set (snd x0)"
        by auto
      from edgesLiveD [OF l1 this] have "registered v1 (mFrom (snd y))" "registered v1 (mTo (snd y))"
        by simp_all
      then have "registered v (mFrom (snd y))" "registered v (mTo (snd y))"
        by (simp_all add: registered_def f1)
      then show ?thesis by (simp add: a2 registered_alive)
    qed
  qed
  from calculateEdgeEndpoints_readable [OF this] obtain lines where
    c2: "calculateEdgeEndpoints v2 = Inr (v2\<lparr>edges := mapEdges (routed v2 lines) (edges v2)\<rparr>)"
    by (elim exE)
  define v3 where "v3 = v2\<lparr>edges := mapEdges (routed v2 lines) (edges v2)\<rparr>"
  have e2: "edgeBetween v2 f t = (if f = from \<and> t = to then Some e else edgeBetween v1 f t)"
    for f t
    unfolding v2_def by (rule edgeBetween_edge_update)
  have r: "rel_option sameEdge (if f = from \<and> t = to then Some e else edgeBetween v f t)
             (edgeBetween v3 f t)" for f t
  proof -
    have "rel_option sameEdge (if f = from \<and> t = to then Some e else edgeBetween v f t)
            (edgeBetween v2 f t)"
      using v1(3) by (simp add: e2)
    moreover have "rel_option sameEdge (edgeBetween v2 f t) (edgeBetween v3 f t)"
      by (simp add: v3_def edgeBetween_mapEdges rel_sameEdge_routed)
    ultimately show ?thesis by (rule rel_sameEdge_trans)
  qed
  have c: "newEdge from to label v = Inr v3"
    using v1(1) c2 by (simp add: newEdge_def newEdgeNoAux_def v2_def v3_def e_def)
  show ?thesis
  proof (intro exI conjI)
    show "newEdge from to label v = Inr v3" by (rule c)
    show "nodes v3 = nodes v" by (simp add: v3_def v2_def f1)
    show "freeNodeIDs v3 = freeNodeIDs v" by (simp add: v3_def v2_def f1)
    show "others v3 = others v" by (simp add: v3_def v2_def f1)
    show "\<forall>f t. rel_option sameEdge
            (if f = from \<and> t = to
             then Some \<lparr>mFrom = from, mTo = to, mEdgeLabel = label, style = None\<rparr>
             else edgeBetween v f t) (edgeBetween v3 f t)"
      using r unfolding e_def by blast
  qed
qed

text \<open>\<open>Node::position\<close> on a node of another viewer.\<close>
lemma Node_position_other:
  assumes "\<not> registered v node" "map_of (others v) node = Some n"
  shows "Node_position node pt v
           = Inr (v\<lparr>others := AList.update node (n\<lparr>mPos := clampToWorld pt\<rparr>) (others v)\<rparr>)"
  using assms by (simp add: Node_position_def registered_def)

section \<open>The claims about the registry\<close>

lemma sampleViewer_wellFormed: "wellFormed sampleViewer"
  by (simp add: wellFormed_def containersValid_def edgesLive_def registered_def sampleViewer_def)

lemma emptyViewer_wellFormed: "wellFormed emptyViewer"
  by (simp add: wellFormed_def containersValid_def edgesLive_def emptyViewer_def)

lemma sampleViewer_edge_10_20:
  "edgeBetween sampleViewer 10 20
     = Some \<lparr>mFrom = 10, mTo = 20, mEdgeLabel = ''a'', style = None\<rparr>"
  by (simp add: edgeBetween_def sampleViewer_def)

lemma newEdge_existing:
  assumes "wellFormed v" "edgeBetween v from to = Some e0"
  shows "\<exists>v' e'. newEdge from to label v = Inr v'
           \<and> edgeBetween v' from to = Some e'
           \<and> mFrom e' = from \<and> mTo e' = to \<and> mEdgeLabel e' = label
           \<and> nodes v' = nodes v \<and> freeNodeIDs v' = freeNodeIDs v
           \<and> (\<forall>f t. hasEdge v' f t = hasEdge v f t)
           \<and> (\<forall>f t. (f \<noteq> from \<or> t \<noteq> to)
                  \<longrightarrow> rel_option sameEdge (edgeBetween v f t) (edgeBetween v' f t))"
proof -
  define e where "e = \<lparr>mFrom = from, mTo = to, mEdgeLabel = label, style = None\<rparr>"
  from edgeBetween_registered [OF assms] have reg: "registered v from" "registered v to"
    by simp_all
  from newEdge_summary [OF assms(1) reg, of label] obtain v' where
    v': "newEdge from to label v = Inr v'" "nodes v' = nodes v" "freeNodeIDs v' = freeNodeIDs v"
      and r: "\<forall>f t. rel_option sameEdge
                (if f = from \<and> t = to then Some e else edgeBetween v f t) (edgeBetween v' f t)"
    unfolding e_def by blast
  from r have "rel_option sameEdge (if from = from \<and> to = to then Some e else edgeBetween v from to)
                 (edgeBetween v' from to)"
    by (rule allE [where x = "from"]) (erule allE [where x = to])
  then have "rel_option sameEdge (Some e) (edgeBetween v' from to)" by simp
  then obtain e' where e': "edgeBetween v' from to = Some e'" "sameEdge e e'"
    by (cases "edgeBetween v' from to") simp_all
  have other: "rel_option sameEdge (edgeBetween v f t) (edgeBetween v' f t)"
    if "f \<noteq> from \<or> t \<noteq> to" for f t
  proof -
    from r have "rel_option sameEdge (if f = from \<and> t = to then Some e else edgeBetween v f t)
                   (edgeBetween v' f t)"
      by (rule allE [where x = f]) (erule allE [where x = t])
    with that show ?thesis by auto
  qed
  have has: "hasEdge v' f t = hasEdge v f t" for f t
  proof (cases "f = from \<and> t = to")
    case True
    with e'(1) assms(2) show ?thesis by (simp add: hasEdge_edgeBetween)
  next
    case False
    then have "f \<noteq> from \<or> t \<noteq> to" by simp
    from rel_sameEdge_None [OF other [OF this]] show ?thesis
      by (simp add: hasEdge_edgeBetween)
  qed
  from e'(2) have f: "mFrom e' = from" "mTo e' = to" "mEdgeLabel e' = label"
    by (simp_all add: sameEdge_def e_def)
  show ?thesis
  proof (intro exI conjI allI impI)
    show "newEdge from to label v = Inr v'" by (rule v'(1))
    show "edgeBetween v' from to = Some e'" by (rule e'(1))
    show "mFrom e' = from" "mTo e' = to" "mEdgeLabel e' = label" by (rule f)+
    show "nodes v' = nodes v" "freeNodeIDs v' = freeNodeIDs v" by (rule v'(2,3))+
    show "hasEdge v' f t = hasEdge v f t" for f t by (rule has)
    show "rel_option sameEdge (edgeBetween v f t) (edgeBetween v' f t)"
      if "f \<noteq> from \<or> t \<noteq> to" for f t
      using that by (rule other)
  qed
qed


lemma Node_position_clamps:
  assumes "wellFormed v" "map_of (nodes v) node = Some n"
  shows "\<exists>v'. Node_position node pt v = Inr v'
           \<and> map_of (nodes v') node = Some (n\<lparr>mPos := clampToWorld pt\<rparr>)
           \<and> inWorldBounds (clampToWorld pt)"
proof -
  from Node_position_summary [OF assms, of pt] obtain v' where
    "Node_position node pt v = Inr v'"
    "map_of (nodes v') = (map_of (nodes v))(node \<mapsto> n\<lparr>mPos := clampToWorld pt\<rparr>)"
    by (elim exE conjE)
  then show ?thesis by (simp add: clampToWorld_inWorldBounds)
qed

text \<open>
  Claim C2. A stored node position is meant to lie in the world bounds
  \<open>[r, 1 - r] \<times> [r, 1/aspect - r]\<close> after an insert as after a position set. The setter
  clamps (\<open>Node_position_clamps\<close>, \<open>clampToWorld_id\<close>), the constructor does not: a node
  inserted at \<open>(0, 0)\<close> into the empty registry is stored at \<open>(0, 0)\<close>, outside the bounds,
  where the clamp would have given \<open>(r, r)\<close>.
\<close>
theorem newNode_stores_unclamped:
  "newNode 1 (0, 0) emptyViewer
     = Inr (1, \<lparr>nodes = [(1, \<lparr>mPos = (0, 0), mIndex = 0, mLabel = ''''\<rparr>)],
                edges = [], freeNodeIDs = [], others = []\<rparr>)
   \<and> \<not> inWorldBounds (0, 0)
   \<and> clampToWorld (0, 0) = (kNodeRadius, kNodeRadius)"
  by (simp add: newNode_def newNodeNoAux_def emptyViewer_def numNodes_def
        calculateEdgeEndpoints_no_edges inWorldBounds_def clampToWorld_def Let_def
        kNodeRadius_def kAspectRatio_def)

text \<open>
  Claim C10. Setting the label of a node changes the label of that node object and
  nothing else: the edges with their routes and the free ids are the same, the set of
  node addresses is the same, every other node object is the same, and the position and
  the index of the relabelled node are kept. Setting the label of an edge changes the
  label of that edge object and nothing else: the nodes and the free ids are the same,
  every other edge is the same, and the route and the endpoints of the relabelled edge
  are kept. Neither setter recomputes a route: the stored routes are kept as they are,
  up to date or not.
\<close>
theorem label_setters_frame:
  "(map_of (nodes v) node = Some n \<longrightarrow>
      (\<exists>v'. Node_label node label v = Inr v'
          \<and> edges v' = edges v \<and> freeNodeIDs v' = freeNodeIDs v
          \<and> map fst (nodes v') = map fst (nodes v)
          \<and> map_of (nodes v') = (map_of (nodes v))(node \<mapsto> n\<lparr>mLabel := label\<rparr>)
          \<and> mPos (n\<lparr>mLabel := label\<rparr>) = mPos n \<and> mIndex (n\<lparr>mLabel := label\<rparr>) = mIndex n))
   \<and> (edgeBetween v from to = Some e \<longrightarrow>
      (\<exists>v'. Edge_label from to label v = Inr v'
          \<and> nodes v' = nodes v \<and> freeNodeIDs v' = freeNodeIDs v
          \<and> (\<forall>f t. edgeBetween v' f t
                     = (if f = from \<and> t = to then Some (e\<lparr>mEdgeLabel := label\<rparr>)
                        else edgeBetween v f t))
          \<and> style (e\<lparr>mEdgeLabel := label\<rparr>) = style e
          \<and> mFrom (e\<lparr>mEdgeLabel := label\<rparr>) = mFrom e \<and> mTo (e\<lparr>mEdgeLabel := label\<rparr>) = mTo e))"
proof (intro conjI impI)
  assume n: "map_of (nodes v) node = Some n"
  then have "node \<in> set (map fst (nodes v))"
    by (metis map_of_eq_None_iff option.distinct(1) set_map)
  then have "map fst (AList.update node (n\<lparr>mLabel := label\<rparr>) (nodes v)) = map fst (nodes v)"
    by (simp add: update_keys)
  with n show "\<exists>v'. Node_label node label v = Inr v'
          \<and> edges v' = edges v \<and> freeNodeIDs v' = freeNodeIDs v
          \<and> map fst (nodes v') = map fst (nodes v)
          \<and> map_of (nodes v') = (map_of (nodes v))(node \<mapsto> n\<lparr>mLabel := label\<rparr>)
          \<and> mPos (n\<lparr>mLabel := label\<rparr>) = mPos n \<and> mIndex (n\<lparr>mLabel := label\<rparr>) = mIndex n"
    by (simp add: Node_label_def update_conv')
next
  assume e: "edgeBetween v from to = Some e"
  then obtain inner where i: "map_of (edges v) from = Some inner" "map_of inner to = Some e"
    by (auto simp: edgeBetween_def split: option.splits)
  have "edgeBetween (v\<lparr>edges := AList.update from
                            (AList.update to (e\<lparr>mEdgeLabel := label\<rparr>) (innerOf v from))
                            (edges v)\<rparr>) f t
          = (if f = from \<and> t = to then Some (e\<lparr>mEdgeLabel := label\<rparr>)
             else edgeBetween v f t)" for f t
    using i by (simp add: edgeBetween_def update_conv' innerOf_def)
  with e show "\<exists>v'. Edge_label from to label v = Inr v'
          \<and> nodes v' = nodes v \<and> freeNodeIDs v' = freeNodeIDs v
          \<and> (\<forall>f t. edgeBetween v' f t
                     = (if f = from \<and> t = to then Some (e\<lparr>mEdgeLabel := label\<rparr>)
                        else edgeBetween v f t))
          \<and> style (e\<lparr>mEdgeLabel := label\<rparr>) = style e
          \<and> mFrom (e\<lparr>mEdgeLabel := label\<rparr>) = mFrom e \<and> mTo (e\<lparr>mEdgeLabel := label\<rparr>) = mTo e"
    by (simp add: Edge_label_def)
qed

theorem label_setters_frame_witness:
  "(\<exists>v'. Node_label 10 ''w'' sampleViewer = Inr v'
       \<and> edges v' = edges sampleViewer \<and> freeNodeIDs v' = freeNodeIDs sampleViewer
       \<and> map fst (nodes v') = map fst (nodes sampleViewer))
   \<and> (\<exists>v'. Edge_label 10 20 ''w'' sampleViewer = Inr v'
       \<and> nodes v' = nodes sampleViewer \<and> freeNodeIDs v' = freeNodeIDs sampleViewer)"
proof -
  define n where "n = \<lparr>mPos = (1 / 4, 1 / 4), mIndex = 0, mLabel = ''p''\<rparr>"
  define e where "e = \<lparr>mFrom = 10, mTo = 20, mEdgeLabel = ''a'', style = None\<rparr>"
  have a: "map_of (nodes sampleViewer) 10 = Some n"
    by (simp add: sampleViewer_def n_def)
  have b: "edgeBetween sampleViewer 10 20 = Some e"
    by (simp add: sampleViewer_edge_10_20 e_def)
  note t = label_setters_frame [of sampleViewer 10 n "''w''" 10 20 e]
  from mp [OF conjunct1 [OF t] a] obtain v1 where
    "Node_label 10 ''w'' sampleViewer = Inr v1" "edges v1 = edges sampleViewer"
    "freeNodeIDs v1 = freeNodeIDs sampleViewer" "map fst (nodes v1) = map fst (nodes sampleViewer)"
    by (elim exE conjE)
  moreover from mp [OF conjunct2 [OF t] b] obtain v2 where
    "Edge_label 10 20 ''w'' sampleViewer = Inr v2" "nodes v2 = nodes sampleViewer"
    "freeNodeIDs v2 = freeNodeIDs sampleViewer"
    by (elim exE conjE)
  ultimately show ?thesis by (intro exI conjI)
qed

text \<open>
  Claim C1, as amended. When an edge from \<open>from\<close> to \<open>to\<close> exists already, \<open>newEdge\<close>
  stores a new edge object under \<open>(from, to)\<close>: afterwards the registry maps the pair to
  an edge with these endpoints whose label is the label passed to the call, whatever the
  label of the edge before. The nodes, the free ids and the set of pairs that have an edge
  are unchanged, and every other edge keeps its endpoints and its label.
\<close>
theorem newEdge_replaces_existing:
  assumes "wellFormed v" "edgeBetween v from to = Some e0"
  shows "\<exists>v' e'. newEdge from to label v = Inr v'
           \<and> edgeBetween v' from to = Some e'
           \<and> mFrom e' = from \<and> mTo e' = to \<and> mEdgeLabel e' = label
           \<and> nodes v' = nodes v \<and> freeNodeIDs v' = freeNodeIDs v
           \<and> (\<forall>f t. hasEdge v' f t = hasEdge v f t)
           \<and> (\<forall>f t. (f \<noteq> from \<or> t \<noteq> to)
                  \<longrightarrow> rel_option sameEdge (edgeBetween v f t) (edgeBetween v' f t))"
  using assms by (rule newEdge_existing)

theorem newEdge_replaces_existing_witness:
  "\<exists>v' e'. newEdge 10 20 ''z'' sampleViewer = Inr v'
      \<and> edgeBetween v' 10 20 = Some e' \<and> mEdgeLabel e' = ''z''
      \<and> nodes v' = nodes sampleViewer"
proof -
  from newEdge_replaces_existing [OF sampleViewer_wellFormed sampleViewer_edge_10_20, of "''z''"]
  obtain v' e' where "newEdge 10 20 ''z'' sampleViewer = Inr v'"
    "edgeBetween v' 10 20 = Some e'" "mEdgeLabel e' = ''z''" "nodes v' = nodes sampleViewer"
    by (elim exE conjE)
  then show ?thesis by (intro exI conjI)
qed

text \<open>The edge from 10 to 20 of the sample registry is labelled \<open>a\<close>; after another
  \<open>newEdge\<close> for the same pair with the default label, the edge stored there has the
  empty label.\<close>
theorem newEdge_existing_counterexample:
  "map_option mEdgeLabel (edgeBetween sampleViewer 10 20) = Some ''a''
   \<and> (case newEdge 10 20 '''' sampleViewer of
         Inl f \<Rightarrow> None
       | Inr v' \<Rightarrow> map_option mEdgeLabel (edgeBetween v' 10 20)) = Some ''''"
proof -
  from newEdge_existing [OF sampleViewer_wellFormed sampleViewer_edge_10_20, of "''''"]
  obtain v' e' where "newEdge 10 20 '''' sampleViewer = Inr v'"
    "edgeBetween v' 10 20 = Some e'" "mEdgeLabel e' = ''''"
    by (elim exE conjE)
  then have "(case newEdge 10 20 '''' sampleViewer of
         Inl f \<Rightarrow> None
       | Inr v' \<Rightarrow> map_option mEdgeLabel (edgeBetween v' 10 20)) = Some ''''"
    by simp
  moreover have "map_option mEdgeLabel (edgeBetween sampleViewer 10 20) = Some ''a''"
    by (simp add: sampleViewer_edge_10_20)
  ultimately show ?thesis by (rule conjI [rotated])
qed

lemma guestViewer_wellFormed: "wellFormed guestViewer"
  by (simp add: guestViewer_def sampleViewer_wellFormed)

lemma guestViewer_nodes:
  "registered guestViewer 10" "\<not> registered guestViewer 50" "alive guestViewer 10"
  "alive guestViewer 50" "\<not> registered guestViewer 99"
  by (simp_all add: guestViewer_def sampleViewer_def registered_def alive_def)

lemma newEdge_unregistered:
  assumes "wellFormed v" "alive v from" "alive v to"
    "\<not> registered v from \<or> \<not> registered v to"
  shows "\<exists>v' e'. newEdge from to label v = Inr v'
           \<and> edgeBetween v' from to = Some e'
           \<and> mFrom e' = from \<and> mTo e' = to \<and> mEdgeLabel e' = label
           \<and> \<not> hasEdge v from to \<and> hasEdge v' from to \<and> \<not> edgesLive v'
           \<and> nodes v' = nodes v \<and> freeNodeIDs v' = freeNodeIDs v \<and> others v' = others v
           \<and> (\<forall>f t. (f \<noteq> from \<or> t \<noteq> to)
                  \<longrightarrow> rel_option sameEdge (edgeBetween v f t) (edgeBetween v' f t))"
proof -
  define e where "e = \<lparr>mFrom = from, mTo = to, mEdgeLabel = label, style = None\<rparr>"
  from newEdge_alive [OF assms(1,2,3), of label] obtain v' where
    v': "newEdge from to label v = Inr v'" "nodes v' = nodes v" "freeNodeIDs v' = freeNodeIDs v"
      "others v' = others v"
      and r: "\<forall>f t. rel_option sameEdge
                (if f = from \<and> t = to then Some e else edgeBetween v f t) (edgeBetween v' f t)"
    unfolding e_def by (elim exE conjE)
  from r have "rel_option sameEdge (if from = from \<and> to = to then Some e else edgeBetween v from to)
                 (edgeBetween v' from to)"
    by (rule allE [where x = "from"]) (erule allE [where x = to])
  then have "rel_option sameEdge (Some e) (edgeBetween v' from to)" by simp
  then obtain e' where e': "edgeBetween v' from to = Some e'" "sameEdge e e'"
    by (cases "edgeBetween v' from to") simp_all
  from e'(2) have f: "mFrom e' = from" "mTo e' = to" "mEdgeLabel e' = label"
    by (simp_all add: sameEdge_def e_def)
  have other: "rel_option sameEdge (edgeBetween v f t) (edgeBetween v' f t)"
    if "f \<noteq> from \<or> t \<noteq> to" for f t
  proof -
    from r have "rel_option sameEdge (if f = from \<and> t = to then Some e else edgeBetween v f t)
                   (edgeBetween v' f t)"
      by (rule allE [where x = f]) (erule allE [where x = t])
    with that show ?thesis by auto
  qed
  have before: "\<not> hasEdge v from to"
  proof
    assume "hasEdge v from to"
    then obtain e0 where "edgeBetween v from to = Some e0"
      by (auto simp: hasEdge_edgeBetween)
    from edgeBetween_registered [OF assms(1) this] assms(4) show False by simp
  qed
  have after: "hasEdge v' from to"
    by (simp add: hasEdge_edgeBetween e'(1))
  have dead: "\<not> edgesLive v'"
  proof
    assume "edgesLive v'"
    from edgesLive_edgeBetween [OF this e'(1)] have "registered v from \<and> registered v to"
      by (simp add: registered_def v'(2))
    with assms(4) show False by simp
  qed
  show ?thesis
  proof (intro exI conjI allI impI)
    show "newEdge from to label v = Inr v'" by (rule v'(1))
    show "edgeBetween v' from to = Some e'" by (rule e'(1))
    show "mFrom e' = from" "mTo e' = to" "mEdgeLabel e' = label" by (rule f)+
    show "\<not> hasEdge v from to" by (rule before)
    show "hasEdge v' from to" by (rule after)
    show "\<not> edgesLive v'" by (rule dead)
    show "nodes v' = nodes v" "freeNodeIDs v' = freeNodeIDs v" "others v' = others v"
      by (rule v'(2,3,4))+
    show "rel_option sameEdge (edgeBetween v f t) (edgeBetween v' f t)"
      if "f \<noteq> from \<or> t \<noteq> to" for f t
      using that by (rule other)
  qed
qed





section \<open>The registry invariant\<close>

lemma wellFormed_edgesLive: "wellFormed v \<Longrightarrow> edgesLive v"
  by (simp add: wellFormed_def)

lemma newNode_keeps: 
  assumes "wellFormed v"
  shows "\<exists>v'. newNode addr pt v = Inr (addr, v') \<and> wellFormed v' \<and> edgesLive v'"
proof -
  from newNode_summary [OF assms, of addr pt] obtain v' where
    "newNode addr pt v = Inr (addr, v')" "wellFormed v'"
    by (elim exE conjE)
  then show ?thesis by (auto intro: wellFormed_edgesLive)
qed

lemma newEdge_keeps:
  assumes "wellFormed v" "registered v from \<and> registered v to"
  shows "\<exists>v'. newEdge from to label v = Inr v' \<and> wellFormed v' \<and> edgesLive v'"
proof -
  from assms(2) have r: "registered v from" "registered v to" by simp_all
  from newEdge_summary [OF assms(1) r, of label] obtain v' where
    "newEdge from to label v = Inr v'" "wellFormed v'"
    by (elim exE conjE)
  then show ?thesis by (auto intro: wellFormed_edgesLive)
qed

lemma removeEdge_keeps:
  assumes "wellFormed v"
  shows "\<exists>v'. removeEdge e v = Inr v' \<and> wellFormed v' \<and> edgesLive v'"
proof -
  from removeEdge_summary [OF assms, of e] obtain v' where
    "removeEdge e v = Inr v'" "wellFormed v'"
    by (elim exE conjE)
  then show ?thesis by (auto intro: wellFormed_edgesLive)
qed

lemma Node_position_keeps:
  assumes "wellFormed v" "registered v node"
  shows "\<exists>v'. Node_position node pt v = Inr v' \<and> wellFormed v' \<and> edgesLive v'"
proof -
  from assms(2) obtain n where "map_of (nodes v) node = Some n"
    by (auto simp: registered_def)
  from Node_position_summary [OF assms(1) this, of pt] obtain v' where
    "Node_position node pt v = Inr v'" "wellFormed v'"
    by (elim exE conjE)
  then show ?thesis by (auto intro: wellFormed_edgesLive)
qed

lemma Node_position_alive_keeps:
  assumes "wellFormed v" "alive v node"
  shows "\<exists>v'. Node_position node pt v = Inr v' \<and> wellFormed v' \<and> edgesLive v'"
proof (cases "registered v node")
  case True
  with assms(1) show ?thesis by (rule Node_position_keeps)
next
  case False
  with assms(2) obtain n where "map_of (others v) node = Some n"
    by (auto simp: alive_def)
  from Node_position_other [OF False this, of pt] assms(1) show ?thesis
    by (simp add: wellFormed_edgesLive)
qed

text \<open>
  Claim C7, as amended. The empty registry is well-formed. On a well-formed registry, in
  which every edge runs between registered nodes, node insert and edge remove return a
  well-formed registry, and so do edge insert between registered nodes and position
  set on a node that is alive; \<open>removeNode\<close> of a node that is not registered returns
  the registry as it is. Edge insert makes no check of its arguments: from or to a node
  that is alive but not registered it returns a registry that has this edge, which does
  not run between registered nodes. The removal of a registered node is not part of the
  statement: \<open>removeNode\<close> reads the node after it has destroyed it
  (\<open>removeNode_registered\<close>).
\<close>
theorem edges_stay_live_for_registered_nodes:
  assumes "wellFormed v"
  shows "wellFormed emptyViewer
       \<and> (\<exists>v'. newNode addr pt v = Inr (addr, v') \<and> wellFormed v' \<and> edgesLive v')
       \<and> (\<not> registered v node \<longrightarrow> removeNode node v = Inr v)
       \<and> (registered v from \<and> registered v to \<longrightarrow>
            (\<exists>v'. newEdge from to label v = Inr v' \<and> wellFormed v' \<and> edgesLive v'))
       \<and> (alive v src \<and> alive v dst \<and> (\<not> registered v src \<or> \<not> registered v dst) \<longrightarrow>
            (\<exists>v'. newEdge src dst label v = Inr v' \<and> hasEdge v' src dst \<and> \<not> edgesLive v'))
       \<and> (\<exists>v'. removeEdge e v = Inr v' \<and> wellFormed v' \<and> edgesLive v')
       \<and> (alive v moved \<longrightarrow>
            (\<exists>v'. Node_position moved pt' v = Inr v' \<and> wellFormed v' \<and> edgesLive v'))"
proof (intro conjI impI)
  show "wellFormed emptyViewer" by (rule emptyViewer_wellFormed)
  show "\<exists>v'. newNode addr pt v = Inr (addr, v') \<and> wellFormed v' \<and> edgesLive v'"
    by (rule newNode_keeps [OF assms])
  show "removeNode node v = Inr v" if "\<not> registered v node"
    using that by (rule removeNode_unregistered)
  show "\<exists>v'. newEdge from to label v = Inr v' \<and> wellFormed v' \<and> edgesLive v'"
    if "registered v from \<and> registered v to"
    using assms that by (rule newEdge_keeps)
  show "\<exists>v'. newEdge src dst label v = Inr v' \<and> hasEdge v' src dst \<and> \<not> edgesLive v'"
    if a: "alive v src \<and> alive v dst \<and> (\<not> registered v src \<or> \<not> registered v dst)"
  proof -
    from a have b: "alive v src" "alive v dst" "\<not> registered v src \<or> \<not> registered v dst"
      by simp_all
    from newEdge_unregistered [OF assms b, of label] obtain v' where
      "newEdge src dst label v = Inr v'" "hasEdge v' src dst" "\<not> edgesLive v'"
      by (elim exE conjE)
    then show ?thesis by (intro exI conjI)
  qed
  show "\<exists>v'. removeEdge e v = Inr v' \<and> wellFormed v' \<and> edgesLive v'"
    by (rule removeEdge_keeps [OF assms])
  show "\<exists>v'. Node_position moved pt' v = Inr v' \<and> wellFormed v' \<and> edgesLive v'"
    if "alive v moved"
    using assms that by (rule Node_position_alive_keeps)
qed

theorem edges_stay_live_for_registered_nodes_witness:
  "removeNode 99 guestViewer = Inr guestViewer
   \<and> (\<exists>v'. newEdge 10 30 '''' guestViewer = Inr v' \<and> edgesLive v')
   \<and> (\<exists>v'. newEdge 10 50 '''' guestViewer = Inr v' \<and> hasEdge v' 10 50 \<and> \<not> edgesLive v')
   \<and> (\<exists>v'. Node_position 50 (0, 0) guestViewer = Inr v' \<and> edgesLive v')"
proof -
  note t = edges_stay_live_for_registered_nodes [OF guestViewer_wellFormed,
             of 40 "(0, 0)" 99 10 30 "''''" 10 50
                "\<lparr>mFrom = 10, mTo = 20, mEdgeLabel = '''', style = None\<rparr>" 50 "(0, 0)"]
  note t3 = conjunct1 [OF conjunct2 [OF conjunct2 [OF t]]]
  note t4 = conjunct1 [OF conjunct2 [OF conjunct2 [OF conjunct2 [OF t]]]]
  note t5 = conjunct1 [OF conjunct2 [OF conjunct2 [OF conjunct2 [OF conjunct2 [OF t]]]]]
  note t7 = conjunct2 [OF conjunct2 [OF conjunct2 [OF conjunct2 [OF conjunct2 [OF conjunct2 [OF t]]]]]]
  have a: "removeNode 99 guestViewer = Inr guestViewer"
    by (rule mp [OF t3]) (rule guestViewer_nodes(5))
  have "registered guestViewer 10 \<and> registered guestViewer 30"
    by (simp add: guestViewer_def sampleViewer_def registered_def)
  from mp [OF t4 this] obtain v4 where "newEdge 10 30 '''' guestViewer = Inr v4" "edgesLive v4"
    by (elim exE conjE)
  then have b: "\<exists>v'. newEdge 10 30 '''' guestViewer = Inr v' \<and> edgesLive v'"
    by (intro exI conjI)
  have "alive guestViewer 10 \<and> alive guestViewer 50
      \<and> (\<not> registered guestViewer 10 \<or> \<not> registered guestViewer 50)"
    by (simp add: guestViewer_nodes)
  from mp [OF t5 this]
  have c: "\<exists>v'. newEdge 10 50 '''' guestViewer = Inr v' \<and> hasEdge v' 10 50 \<and> \<not> edgesLive v'" .
  from mp [OF t7 guestViewer_nodes(4)] obtain v7 where
    "Node_position 50 (0, 0) guestViewer = Inr v7" "edgesLive v7"
    by (elim exE conjE)
  then have d: "\<exists>v'. Node_position 50 (0, 0) guestViewer = Inr v' \<and> edgesLive v'"
    by (intro exI conjI)
  from a b c d show ?thesis by (intro conjI)
qed

text \<open>
  The node at 50 belongs to another viewer. \<open>newEdge\<close> from the registered node at 10 to
  it returns, and the registry then has an edge to a node that is not registered.
\<close>
theorem newEdge_unregistered_counterexample:
  "registered guestViewer 10 \<and> \<not> registered guestViewer 50
   \<and> (case newEdge 10 50 '''' guestViewer of
         Inl f \<Rightarrow> False
       | Inr v' \<Rightarrow> hasEdge v' 10 50 \<and> \<not> registered v' 50)"
proof -
  have "\<not> registered guestViewer 10 \<or> \<not> registered guestViewer 50"
    by (simp add: guestViewer_nodes)
  from newEdge_unregistered [OF guestViewer_wellFormed guestViewer_nodes(3,4) this, of "''''"]
  obtain v' where v': "newEdge 10 50 '''' guestViewer = Inr v'" "hasEdge v' 10 50"
    "nodes v' = nodes guestViewer"
    by (elim exE conjE)
  from v'(3) guestViewer_nodes(2) have "\<not> registered v' 50"
    by (simp add: registered_def)
  with v'(1,2) guestViewer_nodes(1,2) show ?thesis by simp
qed

section \<open>Node ids\<close>

lemma hd_strictly_sorted:
  "sorted_wrt (<) (xs :: int list) \<Longrightarrow> xs \<noteq> [] \<Longrightarrow> hd xs = Min (set xs)"
proof (cases xs)
  case Nil
  assume "xs \<noteq> []"
  with Nil show ?thesis by simp
next
  case (Cons x ys)
  assume "sorted_wrt (<) xs"
  with Cons have "\<forall>y \<in> set ys. x < y" by simp
  then have "Min (set (x # ys)) = x"
    by (intro Min_eqI) auto
  with Cons show ?thesis by simp
qed

lemma newNode_ids:
  assumes "wellFormed v" "addr \<notin> fst ` set (nodes v)"
  shows "\<exists>v'. newNode addr pt v = Inr (addr, v') \<and> wellFormed v'
           \<and> map_of (nodes v')
               = (map_of (nodes v))
                   (addr \<mapsto> \<lparr>mPos = pt,
                             mIndex = (if freeNodeIDs v \<noteq> []
                                       then size_t_of_int (hd (freeNodeIDs v)) else numNodes v),
                             mLabel = ''''\<rparr>)
           \<and> fst ` set (nodes v') = insert addr (fst ` set (nodes v))
           \<and> numNodes v' = Suc (numNodes v)
           \<and> freeNodeIDs v' = (if freeNodeIDs v \<noteq> [] then tl (freeNodeIDs v) else [])"
proof -
  define n where
    "n = \<lparr>mPos = pt,
          mIndex = (if freeNodeIDs v \<noteq> [] then size_t_of_int (hd (freeNodeIDs v)) else numNodes v),
          mLabel = ''''\<rparr>"
  from newNode_summary [OF assms(1), of addr pt] obtain v' where
    v': "newNode addr pt v = Inr (addr, v')" "wellFormed v'"
      "nodes v' = set_insert fst (addr, n) (nodes v)"
      "freeNodeIDs v' = (if freeNodeIDs v \<noteq> [] then tl (freeNodeIDs v) else [])"
    unfolding n_def by (elim exE conjE)
  from assms(2) have fr: "fst (addr, n) \<notin> fst ` set (nodes v)" by simp
  from set_insert_fresh [OF fr] have
    s: "set (nodes v') = insert (addr, n) (set (nodes v))"
    and l: "length (nodes v') = Suc (length (nodes v))"
    by (simp_all add: v'(3))
  have m: "map_of (nodes v') = (map_of (nodes v))(addr \<mapsto> n)"
    unfolding v'(3) by (rule map_of_set_insert_fresh [OF assms(2)])
  from s have k: "fst ` set (nodes v') = insert addr (fst ` set (nodes v))" by simp
  from l have c: "numNodes v' = Suc (numNodes v)" by (simp add: numNodes_def)
  from v'(1,2) m k c v'(4) show ?thesis unfolding n_def by (intro exI conjI)
qed

lemma newNode_index_rule:
  assumes "wellFormed v" "addr \<notin> fst ` set (nodes v)"
  shows "\<exists>v'. newNode addr pt v = Inr (addr, v')
           \<and> map_option mIndex (map_of (nodes v') addr)
               = Some (if freeNodeIDs v = [] then numNodes v
                       else size_t_of_int (Min (set (freeNodeIDs v))))"
proof -
  from newNode_ids [OF assms, of pt] obtain v' where
    v': "newNode addr pt v = Inr (addr, v')"
      "map_of (nodes v')
         = (map_of (nodes v))
             (addr \<mapsto> \<lparr>mPos = pt,
                       mIndex = (if freeNodeIDs v \<noteq> []
                                 then size_t_of_int (hd (freeNodeIDs v)) else numNodes v),
                       mLabel = ''''\<rparr>)"
    by (elim exE conjE)
  from assms(1) have "sorted_wrt (<) (freeNodeIDs v)"
    by (simp add: wellFormed_def containersValid_def)
  then have "freeNodeIDs v \<noteq> [] \<Longrightarrow> hd (freeNodeIDs v) = Min (set (freeNodeIDs v))"
    by (rule hd_strictly_sorted)
  with v' show ?thesis by (intro exI conjI) auto
qed

lemma newNode_others:
  assumes "newNode addr pt v = Inr (a, v')"
  shows "others v' = others v"
  using assms
  by (auto simp: newNode_def newNodeNoAux_def Let_def split: if_splits sum.splits
        dest: calculateEdgeEndpoints_frame)

text \<open>
  Claim C8. Node ids are meant to be recycled: \<open>newNode\<close> takes the lowest free id, else
  the node count (\<open>newNode_index_rule\<close>), and \<open>removeNode\<close> is to release the id of the
  node it removes. Three inserts into the empty registry yield the ids 0, 1 and 2. The
  removal of the node with the id 1 does not release the id: \<open>removeNode\<close> erases the node
  from \<open>nodes\<close>, which destroys it, and reads the index through the pointer afterwards.
\<close>
theorem removeNode_reads_destroyed_node:
  "\<exists>v1 v2 v3.
       newNode 100 p0 emptyViewer = Inr (100, v1)
     \<and> map_option mIndex (map_of (nodes v1) 100) = Some 0
     \<and> newNode 200 p1 v1 = Inr (200, v2)
     \<and> map_option mIndex (map_of (nodes v2) 200) = Some 1
     \<and> newNode 300 p2 v2 = Inr (300, v3)
     \<and> map_option mIndex (map_of (nodes v3) 300) = Some 2
     \<and> registered v3 200
     \<and> removeNode 200 v3 = Inl (DanglingNode 200)"
proof -
  have e: "nodes emptyViewer = []" "freeNodeIDs emptyViewer = []" "numNodes emptyViewer = 0"
    "others emptyViewer = []"
    by (simp_all add: emptyViewer_def numNodes_def)
  have "(100::nat) \<notin> fst ` set (nodes emptyViewer)" by (simp add: e)
  from newNode_ids [OF emptyViewer_wellFormed this, of p0] obtain v1 where
    v1: "newNode 100 p0 emptyViewer = Inr (100, v1)" "wellFormed v1"
      "map_of (nodes v1) = (map_of (nodes emptyViewer))
         (100 \<mapsto> \<lparr>mPos = p0, mIndex = numNodes emptyViewer, mLabel = ''''\<rparr>)"
      "fst ` set (nodes v1) = insert 100 (fst ` set (nodes emptyViewer))"
      "numNodes v1 = Suc (numNodes emptyViewer)" "freeNodeIDs v1 = []"
    by (auto simp: e)
  have i1: "map_option mIndex (map_of (nodes v1) 100) = Some 0"
    by (simp add: v1(3) e)
  have "(200::nat) \<notin> fst ` set (nodes v1)" by (simp add: v1(4) e)
  from newNode_ids [OF v1(2) this, of p1] obtain v2 where
    v2: "newNode 200 p1 v1 = Inr (200, v2)" "wellFormed v2"
      "map_of (nodes v2) = (map_of (nodes v1))
         (200 \<mapsto> \<lparr>mPos = p1, mIndex = numNodes v1, mLabel = ''''\<rparr>)"
      "fst ` set (nodes v2) = insert 200 (fst ` set (nodes v1))"
      "numNodes v2 = Suc (numNodes v1)" "freeNodeIDs v2 = []"
    by (auto simp: v1(6))
  have i2: "map_option mIndex (map_of (nodes v2) 200) = Some 1"
    by (simp add: v2(3) v1(5) e)
  have "(300::nat) \<notin> fst ` set (nodes v2)" by (simp add: v2(4) v1(4) e)
  from newNode_ids [OF v2(2) this, of p2] obtain v3 where
    v3: "newNode 300 p2 v2 = Inr (300, v3)" "wellFormed v3"
      "map_of (nodes v3) = (map_of (nodes v2))
         (300 \<mapsto> \<lparr>mPos = p2, mIndex = numNodes v2, mLabel = ''''\<rparr>)"
    by (auto simp: v2(6))
  have i3: "map_option mIndex (map_of (nodes v3) 300) = Some 2"
    by (simp add: v3(3) v2(5) v1(5) e)
  have n: "map_of (nodes v3) 200 = Some \<lparr>mPos = p1, mIndex = numNodes v1, mLabel = ''''\<rparr>"
    by (simp add: v3(3) v2(3))
  then have r: "registered v3 200" by (simp add: registered_def)
  have "others v3 = []"
    using newNode_others [OF v1(1)] newNode_others [OF v2(1)] newNode_others [OF v3(1)]
    by (simp add: e)
  then have "map_of (others v3) 200 = None" by simp
  with n have f: "removeNode 200 v3 = Inl (DanglingNode 200)"
    by (rule removeNode_registered)
  from v1(1) i1 v2(1) i2 v3(1) i3 r f show ?thesis by (intro exI conjI)
qed

section \<open>Anti-parallel edges\<close>

lemma avoidance_angle:
  "sin kAvoidanceRotation = - (1 / 2)" "cos kAvoidanceRotation = cos (pi / 6)"
  "sin (- kAvoidanceRotation) = 1 / 2" "cos (- kAvoidanceRotation) = cos (pi / 6)"
proof -
  have k: "kAvoidanceRotation = - (pi / 6)" by (simp add: kAvoidanceRotation_def)
  show "sin kAvoidanceRotation = - (1 / 2)" unfolding k by (simp add: sin_30)
  show "cos kAvoidanceRotation = cos (pi / 6)" unfolding k by simp
  show "sin (- kAvoidanceRotation) = 1 / 2" unfolding k by (simp add: sin_30)
  show "cos (- kAvoidanceRotation) = cos (pi / 6)" unfolding k by simp
qed

lemma magnitudeOf_zero_iff: "magnitudeOf d = 0 \<longleftrightarrow> d = (0, 0)"
proof -
  have "fst d * fst d + snd d * snd d = 0 \<longleftrightarrow> fst d = 0 \<and> snd d = 0"
    by (rule sum_squares_eq_zero_iff)
  then show ?thesis
    by (cases d) (simp add: magnitudeOf_def dot_def)
qed

lemma magnitudeOf_psub_swap: "magnitudeOf (psub p q) = magnitudeOf (psub q p)"
proof -
  have "(fst p - fst q) * (fst p - fst q) + (snd p - snd q) * (snd p - snd q)
      = (fst q - fst p) * (fst q - fst p) + (snd q - snd p) * (snd q - snd p)"
    by (simp add: algebra_simps)
  then show ?thesis by (simp add: magnitudeOf_def dot_def psub_def)
qed

lemma lineEndpoints_reverse:
  "lineEndpoints True p0 p1 =
     (padd p0 (vscale (rotate_v (normalizationOf (psub p1 p0)) kAvoidanceRotation) kNodeRadius),
      padd p1 (vscale (rotate_v (normalizationOf (psub p0 p1)) (- kAvoidanceRotation))
                 kNodeRadius))"
  by (simp add: lineEndpoints_def Let_def)

lemma midpoint_antiparallel:
  assumes "pa \<noteq> pb"
  defines "m \<equiv> magnitudeOf (psub pb pa)"
  shows "midpoint_of (lineEndpoints True pa pb)
           = ((fst pa + fst pb) / 2 + kNodeRadius * ((snd pb - snd pa) / m) / 2,
              (snd pa + snd pb) / 2 - kNodeRadius * ((fst pb - fst pa) / m) / 2)"
    and "midpoint_of (lineEndpoints True pb pa)
           = ((fst pa + fst pb) / 2 - kNodeRadius * ((snd pb - snd pa) / m) / 2,
              (snd pa + snd pb) / 2 + kNodeRadius * ((fst pb - fst pa) / m) / 2)"
    and "m \<noteq> 0"
proof -
  from assms(1) have "psub pb pa \<noteq> (0, 0)"
    by (cases pa; cases pb) (auto simp: psub_def)
  then show m0: "m \<noteq> 0" by (simp add: m_def magnitudeOf_zero_iff)
  have m': "magnitudeOf (psub pa pb) = m"
    unfolding m_def by (rule magnitudeOf_psub_swap)
  have n1: "normalizationOf (psub pb pa) = ((fst pb - fst pa) / m, (snd pb - snd pa) / m)"
    using m0 by (simp add: normalizationOf_def m_def [symmetric]) (simp add: psub_def)
  have n2: "normalizationOf (psub pa pb) = ((fst pa - fst pb) / m, (snd pa - snd pb) / m)"
    using m0 by (simp add: normalizationOf_def m') (simp add: psub_def)
  show "midpoint_of (lineEndpoints True pa pb)
           = ((fst pa + fst pb) / 2 + kNodeRadius * ((snd pb - snd pa) / m) / 2,
              (snd pa + snd pb) / 2 - kNodeRadius * ((fst pb - fst pa) / m) / 2)"
    unfolding lineEndpoints_reverse n1 n2
    by (simp add: midpoint_of_def padd_def vscale_def rotate_v_def avoidance_angle
          diff_divide_distrib add_divide_distrib algebra_simps)
  show "midpoint_of (lineEndpoints True pb pa)
           = ((fst pa + fst pb) / 2 - kNodeRadius * ((snd pb - snd pa) / m) / 2,
              (snd pa + snd pb) / 2 + kNodeRadius * ((fst pb - fst pa) / m) / 2)"
    unfolding lineEndpoints_reverse n1 n2
    by (simp add: midpoint_of_def padd_def vscale_def rotate_v_def avoidance_angle
          diff_divide_distrib add_divide_distrib algebra_simps)
qed

lemma antiparallel_midpoints_differ:
  assumes "pa \<noteq> pb"
  shows "midpoint_of (lineEndpoints True pa pb) \<noteq> midpoint_of (lineEndpoints True pb pa)"
proof
  define m where "m = magnitudeOf (psub pb pa)"
  note mid = midpoint_antiparallel [OF assms, folded m_def]
  assume "midpoint_of (lineEndpoints True pa pb) = midpoint_of (lineEndpoints True pb pa)"
  then have "kNodeRadius * ((snd pb - snd pa) / m) = 0" "kNodeRadius * ((fst pb - fst pa) / m) = 0"
    unfolding mid(1) mid(2) by simp_all
  with mid(3) have "snd pb = snd pa" "fst pb = fst pa"
    by (simp_all add: kNodeRadius_def)
  then have "pa = pb" by (simp add: prod_eq_iff)
  with assms show False by simp
qed

lemma routed_line:
  assumes "mFrom e \<noteq> mTo e" "map_of (nodes v) (mFrom e) = Some n0"
    "map_of (nodes v) (mTo e) = Some n1"
  shows "style (routed v lines e)
           = Some (LineEdge
                     (fst (lineEndpoints (hasEdge v (mTo e) (mFrom e)) (mPos n0) (mPos n1)))
                     (snd (lineEndpoints (hasEdge v (mTo e) (mFrom e)) (mPos n0) (mPos n1))))"
  using assms
  by (simp add: routed_def loopRoute_def lineRoute_def placeLine_def placeLoop_def
        positionOf_def deref_def Let_def)

lemma recalc_antiparallel:
  assumes "wellFormed v" "edgeBetween v a b = Some eab" "edgeBetween v b a = Some eba" "a \<noteq> b"
    "map_of (nodes v) a = Some na" "map_of (nodes v) b = Some nb"
  shows "\<exists>v'. calculateEdgeEndpoints v = Inr v'
           \<and> map_option style (edgeBetween v' a b)
               = Some (Some (LineEdge (fst (lineEndpoints True (mPos na) (mPos nb)))
                                      (snd (lineEndpoints True (mPos na) (mPos nb)))))
           \<and> map_option style (edgeBetween v' b a)
               = Some (Some (LineEdge (fst (lineEndpoints True (mPos nb) (mPos na)))
                                      (snd (lineEndpoints True (mPos nb) (mPos na)))))"
proof -
  from assms(1) have "edgesLive v" by (simp add: wellFormed_def)
  from calculateEdgeEndpoints_ok [OF this] obtain lines where
    c: "calculateEdgeEndpoints v = Inr (v\<lparr>edges := mapEdges (routed v lines) (edges v)\<rparr>)"
    by (elim exE)
  define v' where "v' = v\<lparr>edges := mapEdges (routed v lines) (edges v)\<rparr>"
  from edgeBetween_registered [OF assms(1,2)] have ab: "mFrom eab = a" "mTo eab = b" by simp_all
  from edgeBetween_registered [OF assms(1,3)] have ba: "mFrom eba = b" "mTo eba = a" by simp_all
  have h: "hasEdge v b a" "hasEdge v a b"
    using assms(2,3) by (simp_all add: hasEdge_edgeBetween)
  have 1: "edgeBetween v' a b = Some (routed v lines eab)"
    unfolding v'_def by (simp add: edgeBetween_mapEdges assms(2))
  have 2: "edgeBetween v' b a = Some (routed v lines eba)"
    unfolding v'_def by (simp add: edgeBetween_mapEdges assms(3))
  have s1: "style (routed v lines eab)
          = Some (LineEdge (fst (lineEndpoints True (mPos na) (mPos nb)))
                           (snd (lineEndpoints True (mPos na) (mPos nb))))"
    using routed_line [of eab v na nb lines] ab assms(4,5,6) h by simp
  have s2: "style (routed v lines eba)
          = Some (LineEdge (fst (lineEndpoints True (mPos nb) (mPos na)))
                           (snd (lineEndpoints True (mPos nb) (mPos na))))"
    using routed_line [of eba v nb na lines] ba assms(4,5,6) h by simp
  show ?thesis
  proof (intro exI conjI)
    show "calculateEdgeEndpoints v = Inr v'" unfolding v'_def by (rule c)
    show "map_option style (edgeBetween v' a b)
               = Some (Some (LineEdge (fst (lineEndpoints True (mPos na) (mPos nb)))
                                      (snd (lineEndpoints True (mPos na) (mPos nb)))))"
      by (simp add: 1 s1)
    show "map_option style (edgeBetween v' b a)
               = Some (Some (LineEdge (fst (lineEndpoints True (mPos nb) (mPos na)))
                                      (snd (lineEndpoints True (mPos nb) (mPos na)))))"
      by (simp add: 2 s2)
  qed
qed

lemma coincidentViewer_wellFormed: "wellFormed coincidentViewer"
  by (simp add: wellFormed_def containersValid_def edgesLive_def registered_def
        coincidentViewer_def)

lemma lineEndpoints_coincident:
  "lineEndpoints True p p
     = (padd p (vscale (rotate_v (1, 0) kAvoidanceRotation) kNodeRadius),
        padd p (vscale (rotate_v (1, 0) (- kAvoidanceRotation)) kNodeRadius))"
proof -
  have "psub p p = (0, 0)" by (simp add: psub_def)
  then have "normalizationOf (psub p p) = (1, 0)"
    by (simp add: normalizationOf_def magnitudeOf_def dot_def)
  then show ?thesis by (simp add: lineEndpoints_reverse)
qed

text \<open>
  Claim C4, as amended. For two distinct registered nodes \<open>a\<close> and \<open>b\<close> whose centres
  differ and between which both edges exist, the recomputation gives each of the two
  edges a segment that starts at the centre of its source, offset by \<open>kNodeRadius\<close> along
  the unit vector towards the target rotated by the avoidance angle, and ends at the
  centre of its target, offset by \<open>kNodeRadius\<close> along the unit vector towards the source
  rotated by the opposite angle; the midpoints of the two segments differ.
\<close>
theorem antiparallel_segments_differ:
  assumes "wellFormed v" "edgeBetween v a b = Some eab" "edgeBetween v b a = Some eba" "a \<noteq> b"
    "map_of (nodes v) a = Some na" "map_of (nodes v) b = Some nb" "mPos na \<noteq> mPos nb"
  shows "\<exists>v' sab sba. calculateEdgeEndpoints v = Inr v'
           \<and> map_option style (edgeBetween v' a b) = Some (Some (LineEdge (fst sab) (snd sab)))
           \<and> map_option style (edgeBetween v' b a) = Some (Some (LineEdge (fst sba) (snd sba)))
           \<and> sab = (padd (mPos na)
                       (vscale (rotate_v (normalizationOf (psub (mPos nb) (mPos na)))
                                  kAvoidanceRotation) kNodeRadius),
                     padd (mPos nb)
                       (vscale (rotate_v (normalizationOf (psub (mPos na) (mPos nb)))
                                  (- kAvoidanceRotation)) kNodeRadius))
           \<and> sba = (padd (mPos nb)
                       (vscale (rotate_v (normalizationOf (psub (mPos na) (mPos nb)))
                                  kAvoidanceRotation) kNodeRadius),
                     padd (mPos na)
                       (vscale (rotate_v (normalizationOf (psub (mPos nb) (mPos na)))
                                  (- kAvoidanceRotation)) kNodeRadius))
           \<and> midpoint_of sab \<noteq> midpoint_of sba"
proof -
  from recalc_antiparallel [OF assms(1-6)] obtain v' where
    v': "calculateEdgeEndpoints v = Inr v'"
      "map_option style (edgeBetween v' a b)
         = Some (Some (LineEdge (fst (lineEndpoints True (mPos na) (mPos nb)))
                                (snd (lineEndpoints True (mPos na) (mPos nb)))))"
      "map_option style (edgeBetween v' b a)
         = Some (Some (LineEdge (fst (lineEndpoints True (mPos nb) (mPos na)))
                                (snd (lineEndpoints True (mPos nb) (mPos na)))))"
    by (elim exE conjE)
  show ?thesis
  proof (intro exI conjI)
    show "calculateEdgeEndpoints v = Inr v'" by (rule v'(1))
    show "map_option style (edgeBetween v' a b)
         = Some (Some (LineEdge (fst (lineEndpoints True (mPos na) (mPos nb)))
                                (snd (lineEndpoints True (mPos na) (mPos nb)))))"
      by (rule v'(2))
    show "map_option style (edgeBetween v' b a)
         = Some (Some (LineEdge (fst (lineEndpoints True (mPos nb) (mPos na)))
                                (snd (lineEndpoints True (mPos nb) (mPos na)))))"
      by (rule v'(3))
    show "lineEndpoints True (mPos na) (mPos nb)
        = (padd (mPos na)
             (vscale (rotate_v (normalizationOf (psub (mPos nb) (mPos na)))
                        kAvoidanceRotation) kNodeRadius),
           padd (mPos nb)
             (vscale (rotate_v (normalizationOf (psub (mPos na) (mPos nb)))
                        (- kAvoidanceRotation)) kNodeRadius))"
      by (rule lineEndpoints_reverse)
    show "lineEndpoints True (mPos nb) (mPos na)
        = (padd (mPos nb)
             (vscale (rotate_v (normalizationOf (psub (mPos na) (mPos nb)))
                        kAvoidanceRotation) kNodeRadius),
           padd (mPos na)
             (vscale (rotate_v (normalizationOf (psub (mPos nb) (mPos na)))
                        (- kAvoidanceRotation)) kNodeRadius))"
      by (rule lineEndpoints_reverse)
    show "midpoint_of (lineEndpoints True (mPos na) (mPos nb))
            \<noteq> midpoint_of (lineEndpoints True (mPos nb) (mPos na))"
      by (rule antiparallel_midpoints_differ [OF assms(7)])
  qed
qed

theorem antiparallel_segments_differ_witness:
  "\<exists>v' sab sba. calculateEdgeEndpoints sampleViewer = Inr v'
      \<and> map_option style (edgeBetween v' 10 20) = Some (Some (LineEdge (fst sab) (snd sab)))
      \<and> map_option style (edgeBetween v' 20 10) = Some (Some (LineEdge (fst sba) (snd sba)))
      \<and> midpoint_of sab \<noteq> midpoint_of sba"
proof -
  define na where "na = \<lparr>mPos = (1 / 4, 1 / 4), mIndex = 0, mLabel = ''p''\<rparr>"
  define nb where "nb = \<lparr>mPos = (3 / 4, 1 / 4), mIndex = 1, mLabel = ''q''\<rparr>"
  have e: "edgeBetween sampleViewer 10 20
             = Some \<lparr>mFrom = 10, mTo = 20, mEdgeLabel = ''a'', style = None\<rparr>"
    "edgeBetween sampleViewer 20 10
             = Some \<lparr>mFrom = 20, mTo = 10, mEdgeLabel = ''b'', style = None\<rparr>"
    by (simp_all add: edgeBetween_def sampleViewer_def)
  have n: "map_of (nodes sampleViewer) 10 = Some na" "map_of (nodes sampleViewer) 20 = Some nb"
    by (simp_all add: sampleViewer_def na_def nb_def)
  have d: "(10::nat) \<noteq> 20" by simp
  have p: "mPos na \<noteq> mPos nb" by (simp add: na_def nb_def)
  from antiparallel_segments_differ [OF sampleViewer_wellFormed e d n p]
  obtain v' sab sba where
    "calculateEdgeEndpoints sampleViewer = Inr v'"
    "map_option style (edgeBetween v' 10 20) = Some (Some (LineEdge (fst sab) (snd sab)))"
    "map_option style (edgeBetween v' 20 10) = Some (Some (LineEdge (fst sba) (snd sba)))"
    "midpoint_of sab \<noteq> midpoint_of sba"
    by (elim exE conjE)
  then show ?thesis by (intro exI conjI)
qed

text \<open>
  Two distinct nodes with the same centre: both edges of the pair receive the same
  segment, so the two segments coincide.
\<close>
theorem antiparallel_coincident_counterexample:
  "(case calculateEdgeEndpoints coincidentViewer of
      Inl f \<Rightarrow> None
    | Inr v' \<Rightarrow> map_option style (edgeBetween v' 10 20))
     = Some (Some (LineEdge
         (padd (kNodeRadius, kNodeRadius) (vscale (rotate_v (1, 0) kAvoidanceRotation) kNodeRadius))
         (padd (kNodeRadius, kNodeRadius)
            (vscale (rotate_v (1, 0) (- kAvoidanceRotation)) kNodeRadius))))
   \<and> (case calculateEdgeEndpoints coincidentViewer of
      Inl f \<Rightarrow> None
    | Inr v' \<Rightarrow> map_option style (edgeBetween v' 20 10))
     = Some (Some (LineEdge
         (padd (kNodeRadius, kNodeRadius) (vscale (rotate_v (1, 0) kAvoidanceRotation) kNodeRadius))
         (padd (kNodeRadius, kNodeRadius)
            (vscale (rotate_v (1, 0) (- kAvoidanceRotation)) kNodeRadius))))"
proof -
  define na where "na = \<lparr>mPos = (kNodeRadius, kNodeRadius), mIndex = 0, mLabel = ''p''\<rparr>"
  define nb where "nb = \<lparr>mPos = (kNodeRadius, kNodeRadius), mIndex = 1, mLabel = ''q''\<rparr>"
  have e: "edgeBetween coincidentViewer 10 20
             = Some \<lparr>mFrom = 10, mTo = 20, mEdgeLabel = ''a'', style = None\<rparr>"
    "edgeBetween coincidentViewer 20 10
             = Some \<lparr>mFrom = 20, mTo = 10, mEdgeLabel = ''b'', style = None\<rparr>"
    by (simp_all add: edgeBetween_def coincidentViewer_def)
  have n: "map_of (nodes coincidentViewer) 10 = Some na"
    "map_of (nodes coincidentViewer) 20 = Some nb"
    by (simp_all add: coincidentViewer_def na_def nb_def)
  have d: "(10::nat) \<noteq> 20" by simp
  have p: "mPos na = (kNodeRadius, kNodeRadius)" "mPos nb = (kNodeRadius, kNodeRadius)"
    by (simp_all add: na_def nb_def)
  from recalc_antiparallel [OF coincidentViewer_wellFormed e d n] obtain v' where
    "calculateEdgeEndpoints coincidentViewer = Inr v'"
    "map_option style (edgeBetween v' 10 20)
       = Some (Some (LineEdge (fst (lineEndpoints True (mPos na) (mPos nb)))
                              (snd (lineEndpoints True (mPos na) (mPos nb)))))"
    "map_option style (edgeBetween v' 20 10)
       = Some (Some (LineEdge (fst (lineEndpoints True (mPos nb) (mPos na)))
                              (snd (lineEndpoints True (mPos nb) (mPos na)))))"
    by (elim exE conjE)
  then show ?thesis
    by (simp add: p lineEndpoints_coincident)
qed

end
